theory Spec2Isabelle
  imports
    Main
    "HOL-Library.Multiset"
    "HOL-Library.List_Lexorder"
    "HOL-Library.Char_ord"
begin

section \<open>sqlcc: the migration loader and the migrate command\<close>

text \<open>
  A shallow embedding of \<^verbatim>\<open>parseMigrations\<close>, \<^verbatim>\<open>parseMigrationName\<close>,
  \<^verbatim>\<open>getState\<close>, \<^verbatim>\<open>setState\<close>, \<^verbatim>\<open>withTx\<close> and the body of \<^verbatim>\<open>migrate\<close>.
  Go strings are byte strings (\<open>string\<close>), Go's \<^verbatim>\<open>int\<close> is the 64-bit signed
  integer, modelled as \<open>int\<close> with the range check of \<^verbatim>\<open>strconv.Atoi\<close> written out
  (no arithmetic is ever done on a version, so nothing can wrap).
\<close>

subsection \<open>Errors and results\<close>

type_synonym oserr = string

text \<open>One constructor for each \<^verbatim>\<open>fmt.Errorf\<close> of the source; the wrapped
  error of the operating system or of the database driver is carried as its text.\<close>

datatype error =
    ReadMigrationsDir oserr            \<comment> \<open>read migrations dir: ...\<close>
  | InvalidName string                 \<comment> \<open>migration name must begin with digits followed by underscore\<close>
  | ZeroVersion string                 \<comment> \<open>migration version must be nonzero\<close>
  | DuplicateVersion string string     \<comment> \<open>two migrations for same version: name, earlier name\<close>
  | ReadMigrationFile oserr            \<comment> \<open>read migration file: ...\<close>
  | BeginTxError oserr                 \<comment> \<open>begin tx: ...\<close>
  | RollbackTxError oserr              \<comment> \<open>rollback tx: ...\<close>
  | CommitTxError oserr                \<comment> \<open>commit tx: ...\<close>
  | ReadStateError oserr               \<comment> \<open>read state from db: ...\<close>
  | WriteStateError oserr              \<comment> \<open>write state to db: ...\<close>
  | StateDirty                         \<comment> \<open>state is dirty, will not migrate\<close>
  | ExecError string oserr             \<comment> \<open>exec name: ...\<close>

text \<open>A Go function of the loader returns a value, returns an error, or panics.\<close>

datatype 'a result = Ok 'a | Err error | Panic

subsection \<open>Strings\<close>

definition HasSuffix :: "string \<Rightarrow> string \<Rightarrow> bool" where
  "HasSuffix s suffix =
     (length suffix \<le> length s \<and> drop (length s - length suffix) s = suffix)"

definition HasPrefix :: "string \<Rightarrow> string \<Rightarrow> bool" where
  "HasPrefix s prefix = (take (length prefix) s = prefix)"

fun Contains :: "string \<Rightarrow> string \<Rightarrow> bool" where
  "Contains [] substr = (substr = [])"
| "Contains (c # cs) substr = (HasPrefix (c # cs) substr \<or> Contains cs substr)"

definition isDigit :: "char \<Rightarrow> bool" where
  "isDigit c = (c \<in> set ''0123456789'')"

definition newline :: char where
  "newline = CHR 0x0A"

subsection \<open>strconv.Atoi\<close>

definition digit_val :: "char \<Rightarrow> int" where
  "digit_val c = int (of_char c) - 48"

definition dec_value :: "string \<Rightarrow> int" where
  "dec_value ds = foldl (\<lambda>a c. 10 * a + digit_val c) 0 ds"

text \<open>\<^verbatim>\<open>strconv.Atoi\<close> in base 10 at the bit size of \<^verbatim>\<open>int\<close> (64): an optional sign,
  then one or more decimal digits; \<open>None\<close> is the syntax error or the range error.\<close>

definition Atoi :: "string \<Rightarrow> int option" where
  "Atoi s =
     (let neg = (s \<noteq> [] \<and> hd s = CHR ''-'');
          ds = (if s \<noteq> [] \<and> (hd s = CHR ''-'' \<or> hd s = CHR ''+'') then tl s else s)
      in if ds = [] \<or> \<not> list_all isDigit ds then None
         else let n = (if neg then - dec_value ds else dec_value ds)
              in if - (2 ^ 63) \<le> n \<and> n \<le> 2 ^ 63 - 1 then Some n else None)"

subsection \<open>The pattern of migration names\<close>

text \<open>
  \<^verbatim>\<open>migrationNamePattern = regexp.MustCompile(`(\d+)_.*\.sql`)\<close>.
  \<open>match_at s\<close> is a match of the pattern that starts at the first byte of \<open>s\<close>, and
  returns the text of the group. The group is greedy, and a shorter run of digits is
  followed by a digit, never by the underscore, so the group is the whole run of digits
  at the start of \<open>s\<close>. After the underscore, \<^verbatim>\<open>.*\<close> takes any bytes but a newline, then
  \<^verbatim>\<open>\.sql\<close> must follow: the text \<^verbatim>\<open>.sql\<close> occurs before the first newline.
  The pattern has no anchor: \<^verbatim>\<open>FindStringSubmatch\<close> returns the leftmost match,
  trying each start position from the left.
\<close>

definition match_at :: "string \<Rightarrow> string option" where
  "match_at s =
     (let ds = takeWhile isDigit s; r = dropWhile isDigit s
      in if ds \<noteq> [] \<and> r \<noteq> [] \<and> hd r = CHR ''_'' \<and>
            Contains (takeWhile (\<lambda>c. c \<noteq> newline) (tl r)) ''.sql''
         then Some ds else None)"

fun FindStringSubmatch :: "string \<Rightarrow> string option" where
  "FindStringSubmatch [] = match_at []"
| "FindStringSubmatch (c # cs) =
     (case match_at (c # cs) of
        Some g \<Rightarrow> Some g
      | None \<Rightarrow> FindStringSubmatch cs)"

definition parseMigrationName :: "string \<Rightarrow> int result" where
  "parseMigrationName nm =
     (case FindStringSubmatch nm of
        None \<Rightarrow> Err (InvalidName nm)
      | Some g \<Rightarrow>
          (case Atoi g of
             None \<Rightarrow> Panic
           | Some n \<Rightarrow> if n = 0 then Err (ZeroVersion nm) else Ok n))"

subsection \<open>The migrations directory\<close>

record migration =
  version :: int
  name :: string
  query :: string

text \<open>A directory entry, with what \<^verbatim>\<open>os.ReadFile\<close> returns for its path.\<close>

record DirEntry =
  Name :: string
  IsDir :: bool
  ReadFile :: "oserr + string"

text \<open>A directory is its entries in the order the operating system lists them, or an
  error. \<^verbatim>\<open>os.ReadDir\<close> returns the entries sorted by file name.\<close>

type_synonym directory = "oserr + DirEntry list"

definition ReadDir :: "directory \<Rightarrow> oserr + DirEntry list" where
  "ReadDir dir = (case dir of Inl e \<Rightarrow> Inl e | Inr es \<Rightarrow> Inr (sort_key Name es))"

text \<open>
  The first loop of \<^verbatim>\<open>parseMigrations\<close>. The Go map \<^verbatim>\<open>migrationsByVersion\<close> is an
  association list: a key is added only after the lookup found none, so the keys are
  distinct and the list holds exactly the entries of the map.
\<close>

fun collect :: "DirEntry list \<Rightarrow> (int \<times> migration) list \<Rightarrow> (int \<times> migration) list result" where
  "collect [] migrationsByVersion = Ok migrationsByVersion"
| "collect (entry # entries) migrationsByVersion =
     (if IsDir entry then collect entries migrationsByVersion
      else if \<not> HasSuffix (Name entry) ''.sql'' then collect entries migrationsByVersion
      else case parseMigrationName (Name entry) of
             Panic \<Rightarrow> Panic
           | Err e \<Rightarrow> Err e
           | Ok v \<Rightarrow>
               (case map_of migrationsByVersion v of
                  Some m \<Rightarrow> Err (DuplicateVersion (Name entry) (name m))
                | None \<Rightarrow>
                    (case ReadFile entry of
                       Inl e \<Rightarrow> Err (ReadMigrationFile e)
                     | Inr q \<Rightarrow>
                         collect entries
                           (migrationsByVersion @
                              [(v, \<lparr>migration.version = v, name = Name entry, query = q\<rparr>)]))))"

text \<open>
  \<^verbatim>\<open>for _, m := range migrationsByVersion\<close> visits the entries of the map in an order
  Go leaves unspecified. \<open>range_order choices xs\<close> is such an order: it picks the next
  element among those left by the next number of \<open>choices\<close>.
\<close>

fun range_order :: "nat list \<Rightarrow> 'a list \<Rightarrow> 'a list" where
  "range_order choices [] = []"
| "range_order [] (x # xs) = x # xs"
| "range_order (c # cs) (x # xs) =
     (let i = c mod length (x # xs)
      in (x # xs) ! i # range_order cs (take i (x # xs) @ drop (Suc i) (x # xs)))"

text \<open>\<^verbatim>\<open>sort.Slice\<close> with the comparison of versions. It is not a stable sort; the
  versions of the slice are distinct, and the order of the input is arbitrary already.\<close>

definition sort_Slice :: "migration list \<Rightarrow> migration list" where
  "sort_Slice ms = sort_key migration.version ms"

definition parseMigrations :: "nat list \<Rightarrow> directory \<Rightarrow> migration list result" where
  "parseMigrations choices dir =
     (case ReadDir dir of
        Inl e \<Rightarrow> Err (ReadMigrationsDir e)
      | Inr entries \<Rightarrow>
          (case collect entries [] of
             Panic \<Rightarrow> Panic
           | Err e \<Rightarrow> Err e
           | Ok migrationsByVersion \<Rightarrow>
               Ok (sort_Slice (range_order choices (map snd migrationsByVersion)))))"


text \<open>The invariant of the first loop: the keys of the map are distinct, every entry is
  stored under its own version, and every version is at least 1.\<close>

definition keyed :: "(int \<times> migration) list \<Rightarrow> bool" where
  "keyed kms = (distinct (map fst kms) \<and> list_all (\<lambda>(k, m). migration.version m = k \<and> 1 \<le> k) kms)"

subsection \<open>The database behind the queryer\<close>

text \<open>
  The database is outside the program. A driver gives the five operations the program
  uses, as functions on a database value \<open>'db\<close> that stands for the connection and
  everything stored behind it: \<^verbatim>\<open>ExecContext\<close>, \<^verbatim>\<open>QueryRowContext\<close> followed by
  \<^verbatim>\<open>Scan\<close> into an integer and a boolean, \<^verbatim>\<open>BeginTx\<close>, \<^verbatim>\<open>Commit\<close> and \<^verbatim>\<open>Rollback\<close>.
  A statement that fails may still have changed the database.
\<close>

record 'db driver =
  exec_stmt :: "string \<Rightarrow> 'db \<Rightarrow> oserr option \<times> 'db"
  query_row :: "string \<Rightarrow> 'db \<Rightarrow> oserr + (int \<times> bool)"
  begin_tx :: "'db \<Rightarrow> oserr + 'db"
  commit_tx :: "'db \<Rightarrow> oserr option \<times> 'db"
  rollback_tx :: "'db \<Rightarrow> oserr option \<times> 'db"

text \<open>The calls the program makes, in order, each with what the database answered: the
  error or none, and for a query the row scanned or the error of \<^verbatim>\<open>Scan\<close>. With them, the
  lines the program prints to standard output.\<close>

datatype call =
    Call_BeginTx "oserr option"
  | Call_Commit "oserr option"
  | Call_Rollback "oserr option"
  | Call_Exec string "oserr option"
  | Call_QueryRow string "oserr + (int \<times> bool)"

record 'db world =
  db :: 'db
  calls :: "call list"
  stdout :: "string list"

definition ExecContext :: "'db driver \<Rightarrow> string \<Rightarrow> 'db world \<Rightarrow> oserr option \<times> 'db world" where
  "ExecContext q stmt w =
     (case exec_stmt q stmt (db w) of
        (r, d) \<Rightarrow> (r, w\<lparr>db := d, calls := calls w @ [Call_Exec stmt r]\<rparr>))"

definition QueryRowContext :: "'db driver \<Rightarrow> string \<Rightarrow> 'db world \<Rightarrow> (oserr + (int \<times> bool)) \<times> 'db world" where
  "QueryRowContext q stmt w =
     (query_row q stmt (db w),
      w\<lparr>calls := calls w @ [Call_QueryRow stmt (query_row q stmt (db w))]\<rparr>)"

definition BeginTx :: "'db driver \<Rightarrow> 'db world \<Rightarrow> oserr option \<times> 'db world" where
  "BeginTx q w =
     (case begin_tx q (db w) of
        Inl e \<Rightarrow> (Some e, w\<lparr>calls := calls w @ [Call_BeginTx (Some e)]\<rparr>)
      | Inr d \<Rightarrow> (None, w\<lparr>db := d, calls := calls w @ [Call_BeginTx None]\<rparr>))"

definition Commit :: "'db driver \<Rightarrow> 'db world \<Rightarrow> oserr option \<times> 'db world" where
  "Commit q w =
     (case commit_tx q (db w) of
        (r, d) \<Rightarrow> (r, w\<lparr>db := d, calls := calls w @ [Call_Commit r]\<rparr>))"

definition Rollback :: "'db driver \<Rightarrow> 'db world \<Rightarrow> oserr option \<times> 'db world" where
  "Rollback q w =
     (case rollback_tx q (db w) of
        (r, d) \<Rightarrow> (r, w\<lparr>db := d, calls := calls w @ [Call_Rollback r]\<rparr>))"

subsection \<open>fmt.Sprintf of the state statements\<close>

definition digit_char :: "nat \<Rightarrow> char" where
  "digit_char n = ''0123456789'' ! n"

fun digits_of :: "nat \<Rightarrow> string" where
  "digits_of n =
     (if n < 10 then [digit_char n] else digits_of (n div 10) @ [digit_char (n mod 10)])"

declare digits_of.simps [simp del]

text \<open>The verb \<^verbatim>\<open>%v\<close> on an \<^verbatim>\<open>int\<close> and on a \<^verbatim>\<open>bool\<close>.\<close>

definition format_int :: "int \<Rightarrow> string" where
  "format_int i = (if i < 0 then CHR ''-'' # digits_of (nat (- i)) else digits_of (nat i))"

definition format_bool :: "bool \<Rightarrow> string" where
  "format_bool b = (if b then ''true'' else ''false'')"

record state =
  version :: int
  dirty :: bool

definition stateSQL :: "string \<Rightarrow> string" where
  "stateSQL stateTable = ''select version, dirty from '' @ stateTable @ '' limit 1''"

definition setStateSQL :: "string \<Rightarrow> state \<Rightarrow> string" where
  "setStateSQL stateTable s =
     ''update '' @ stateTable @ '' set version = '' @ format_int (state.version s) @
     '', dirty = '' @ format_bool (dirty s)"

subsection \<open>getState, setState, withTx\<close>

definition getState :: "'db driver \<Rightarrow> string \<Rightarrow> 'db world \<Rightarrow> (error + state) \<times> 'db world" where
  "getState q stateTable w =
     (case QueryRowContext q (stateSQL stateTable) w of
        (Inl e, w') \<Rightarrow> (Inl (ReadStateError e), w')
      | (Inr (v, d), w') \<Rightarrow> (Inr \<lparr>state.version = v, dirty = d\<rparr>, w'))"

definition setState :: "'db driver \<Rightarrow> string \<Rightarrow> state \<Rightarrow> 'db world \<Rightarrow> error option \<times> 'db world" where
  "setState q stateTable s w =
     (case ExecContext q (setStateSQL stateTable s) w of
        (Some e, w') \<Rightarrow> (Some (WriteStateError e), w')
      | (None, w') \<Rightarrow> (None, w'))"

text \<open>\<^verbatim>\<open>withTx\<close>: the function \<open>f\<close> runs on the database itself, or between
  \<^verbatim>\<open>BeginTx\<close> and a \<^verbatim>\<open>Rollback\<close> (when \<open>f\<close> returns an error) or a \<^verbatim>\<open>Commit\<close>.\<close>

definition withTx ::
  "'db driver \<Rightarrow> bool \<Rightarrow> ('db world \<Rightarrow> error option \<times> 'db world) \<Rightarrow> 'db world \<Rightarrow>
     error option \<times> 'db world" where
  "withTx q inTx f w =
     (if \<not> inTx then f w
      else case BeginTx q w of
             (Some e, w1) \<Rightarrow> (Some (BeginTxError e), w1)
           | (None, w1) \<Rightarrow>
               (case f w1 of
                  (Some err, w2) \<Rightarrow>
                    (case Rollback q w2 of
                       (Some e, w3) \<Rightarrow> (Some (RollbackTxError e), w3)
                     | (None, w3) \<Rightarrow> (Some err, w3))
                | (None, w2) \<Rightarrow>
                    (case Commit q w2 of
                       (Some e, w3) \<Rightarrow> (Some (CommitTxError e), w3)
                     | (None, w3) \<Rightarrow> (None, w3))))"

subsection \<open>migrate\<close>

text \<open>The first loop of the function that \<^verbatim>\<open>migrate\<close> passes to \<^verbatim>\<open>withTx\<close>: the index
  \<open>i\<close> advances while \<^verbatim>\<open>migrations[i].version <= state.version\<close>; what is left is
  \<^verbatim>\<open>migrations[i:]\<close>.\<close>

fun advance :: "state \<Rightarrow> migration list \<Rightarrow> migration list" where
  "advance st [] = []"
| "advance st (m # ms) =
     (if migration.version m \<le> state.version st then advance st ms else m # ms)"

text \<open>The second loop, on \<^verbatim>\<open>migrations[i:]\<close>, with the local variable \<^verbatim>\<open>state\<close>.\<close>

fun run_rest ::
  "'db driver \<Rightarrow> bool \<Rightarrow> string \<Rightarrow> state \<Rightarrow> migration list \<Rightarrow> 'db world \<Rightarrow>
     error option \<times> 'db world" where
  "run_rest q force stateTable st [] w = (None, w)"
| "run_rest q force stateTable st (m # ms) w =
     (let w0 = w\<lparr>stdout := stdout w @ [name m]\<rparr>
      in if force then
           (case setState q stateTable (st\<lparr>dirty := True\<rparr>) w0 of
              (Some err, w1) \<Rightarrow> (Some err, w1)
            | (None, w1) \<Rightarrow>
                (case ExecContext q (query m) w1 of
                   (Some e, w2) \<Rightarrow> (Some (ExecError (name m) e), w2)
                 | (None, w2) \<Rightarrow>
                     (case setState q stateTable
                             \<lparr>state.version = migration.version m, dirty = False\<rparr> w2 of
                        (Some err, w3) \<Rightarrow> (Some err, w3)
                      | (None, w3) \<Rightarrow>
                          run_rest q force stateTable
                            \<lparr>state.version = migration.version m, dirty = False\<rparr> ms w3)))
         else run_rest q force stateTable st ms w0)"

text \<open>The function literal of \<^verbatim>\<open>migrate\<close>, run on the queryer \<open>q\<close>.\<close>

definition migrate_func ::
  "bool \<Rightarrow> string \<Rightarrow> migration list \<Rightarrow> 'db driver \<Rightarrow> 'db world \<Rightarrow> error option \<times> 'db world" where
  "migrate_func force stateTable migrations q w =
     (case getState q stateTable w of
        (Inl err, w1) \<Rightarrow> (Some err, w1)
      | (Inr st, w1) \<Rightarrow>
          if dirty st then (Some StateDirty, w1)
          else run_rest q force stateTable st (advance st migrations) w1)"

text \<open>\<^verbatim>\<open>migrate\<close> once its arguments are validated, the migrations are parsed and the
  database is open: \<^verbatim>\<open>withTx(ctx, a.runInTx(), db, func(q queryer) error {...})\<close>.\<close>

definition migrate ::
  "'db driver \<Rightarrow> bool \<Rightarrow> bool \<Rightarrow> string \<Rightarrow> migration list \<Rightarrow> 'db world \<Rightarrow>
     error option \<times> 'db world" where
  "migrate q inTx force stateTable migrations w =
     withTx q inTx (migrate_func force stateTable migrations q) w"

subsection \<open>The loader as the specification words it\<close>

text \<open>The anchored shape of a migration name in the words of the specification,
  \<^verbatim>\<open>^[0-9]+_.*\.sql$\<close>: a run of digits at the very start, the underscore right after it,
  and \<^verbatim>\<open>.sql\<close> at the very end, with no newline for \<^verbatim>\<open>.*\<close> to cross.\<close>

definition anchored_shape :: "string \<Rightarrow> bool" where
  "anchored_shape nm =
     (let ds = takeWhile isDigit nm; r = dropWhile isDigit nm
      in ds \<noteq> [] \<and> r \<noteq> [] \<and> hd r = CHR ''_'' \<and>
         HasSuffix (tl r) ''.sql'' \<and> newline \<notin> set (tl r))"

subsection \<open>What the statements of the claims speak of\<close>

text \<open>The pending migrations in the words of the specification: all migrations of the
  set with a version greater than the version of the state, in the order of the set.\<close>

definition pending :: "int \<Rightarrow> migration list \<Rightarrow> migration list" where
  "pending V ms = filter (\<lambda>m. V < migration.version m) ms"

text \<open>The version of the last migration of a list, or \<open>V\<close> when there is none.\<close>

definition last_version :: "int \<Rightarrow> migration list \<Rightarrow> int" where
  "last_version V ms = (if ms = [] then V else migration.version (last ms))"

text \<open>The three calls around one migration applied from the version \<open>prev\<close>, each of
  them answered without error, and the calls of applying a list of migrations one after
  the other.\<close>

definition bracket :: "string \<Rightarrow> int \<Rightarrow> migration \<Rightarrow> call list" where
  "bracket stateTable prev m =
     [Call_Exec (setStateSQL stateTable \<lparr>state.version = prev, dirty = True\<rparr>) None,
      Call_Exec (query m) None,
      Call_Exec (setStateSQL stateTable \<lparr>state.version = migration.version m, dirty = False\<rparr>)
        None]"

fun applied_calls :: "string \<Rightarrow> int \<Rightarrow> migration list \<Rightarrow> call list" where
  "applied_calls stateTable prev [] = []"
| "applied_calls stateTable prev (m # ms) =
     bracket stateTable prev m @ applied_calls stateTable (migration.version m) ms"

fun is_statement :: "call \<Rightarrow> bool" where
  "is_statement (Call_Exec stmt r) = True"
| "is_statement (Call_QueryRow stmt r) = True"
| "is_statement c = False"

fun is_exec :: "call \<Rightarrow> bool" where
  "is_exec (Call_Exec stmt r) = True"
| "is_exec c = False"

text \<open>A call that the database answered without error.\<close>

fun call_ok :: "call \<Rightarrow> bool" where
  "call_ok (Call_BeginTx r) = (r = None)"
| "call_ok (Call_Commit r) = (r = None)"
| "call_ok (Call_Rollback r) = (r = None)"
| "call_ok (Call_Exec stmt r) = (r = None)"
| "call_ok (Call_QueryRow stmt r) = (case r of Inl e \<Rightarrow> False | Inr row \<Rightarrow> True)"

text \<open>What the database does with a list of \<^verbatim>\<open>ExecContext\<close> calls made one after the other
  from \<open>d\<close>: the database they end on when each statement is answered as recorded with
  it, and nothing otherwise. It tells how a database behaves, without any run of the
  program.\<close>

fun after_calls :: "'db driver \<Rightarrow> call list \<Rightarrow> 'db \<Rightarrow> 'db option" where
  "after_calls q [] d = Some d"
| "after_calls q (Call_Exec stmt r # cs) d =
     (case exec_stmt q stmt d of
        (r', d') \<Rightarrow> if r' = r then after_calls q cs d' else None)"
| "after_calls q (c # cs) d = None"

text \<open>The statement of \<^verbatim>\<open>setState\<close> is recognised by its beginning. The migrations
  applied in a list of calls are counted by their scripts: the statements other than
  writes of the state that \<^verbatim>\<open>ExecContext\<close> executed without error, in order.\<close>

definition is_state_write :: "string \<Rightarrow> string \<Rightarrow> bool" where
  "is_state_write stateTable stmt =
     HasPrefix stmt (''update '' @ stateTable @ '' set version = '')"

fun scripts_done :: "string \<Rightarrow> call list \<Rightarrow> string list" where
  "scripts_done stateTable [] = []"
| "scripts_done stateTable (Call_Exec stmt r # cs) =
     (if r = None \<and> \<not> is_state_write stateTable stmt
      then stmt # scripts_done stateTable cs else scripts_done stateTable cs)"
| "scripts_done stateTable (c # cs) = scripts_done stateTable cs"

text \<open>The persisted state: what the statement of \<^verbatim>\<open>getState\<close> reads from a database.\<close>

definition persisted :: "'db driver \<Rightarrow> string \<Rightarrow> 'db \<Rightarrow> oserr + (int \<times> bool)" where
  "persisted q stateTable d = query_row q (stateSQL stateTable) d"

text \<open>
  What the claims take for granted of the database. A state written with success over a
  state that could be read (the table has its row) is the state read afterwards;
  opening and committing a transaction leave the state as it is;
  a migration script does not touch the state table, whether it succeeds or fails; and
  a rollback that succeeds gives back the database \<open>origin d\<close> in which the transaction
  of \<open>d\<close> was opened.
\<close>

definition write_then_read :: "'db driver \<Rightarrow> string \<Rightarrow> bool" where
  "write_then_read q stateTable =
     (\<forall>s d d' x. persisted q stateTable d = Inr x \<longrightarrow>
        exec_stmt q (setStateSQL stateTable s) d = (None, d') \<longrightarrow>
        persisted q stateTable d' = Inr (state.version s, dirty s))"

definition begin_keeps_state :: "'db driver \<Rightarrow> string \<Rightarrow> bool" where
  "begin_keeps_state q stateTable =
     (\<forall>d d'. begin_tx q d = Inr d' \<longrightarrow> persisted q stateTable d' = persisted q stateTable d)"

definition commit_keeps_state :: "'db driver \<Rightarrow> string \<Rightarrow> bool" where
  "commit_keeps_state q stateTable =
     (\<forall>d d'. commit_tx q d = (None, d') \<longrightarrow> persisted q stateTable d' = persisted q stateTable d)"

definition script_keeps_state :: "'db driver \<Rightarrow> string \<Rightarrow> string \<Rightarrow> bool" where
  "script_keeps_state q stateTable stmt =
     (\<forall>d. persisted q stateTable (snd (exec_stmt q stmt d)) = persisted q stateTable d)"

definition rollback_restores :: "'db driver \<Rightarrow> ('db \<Rightarrow> 'db) \<Rightarrow> bool" where
  "rollback_restores q origin =
     ((\<forall>d d'. begin_tx q d = Inr d' \<longrightarrow> origin d' = d) \<and>
      (\<forall>stmt d. origin (snd (exec_stmt q stmt d)) = origin d) \<and>
      (\<forall>d d'. rollback_tx q d = (None, d') \<longrightarrow> d' = origin d))"

subsection \<open>A database in memory\<close>

text \<open>
  A small database on which the model runs: the row of the state table (if the table
  exists), the migration scripts executed so far, and the contents saved when a
  transaction was opened. It understands the statement of \<^verbatim>\<open>setState\<close>; any other
  statement is a script, which fails half way when it is one of \<open>bad\<close>.
\<close>

record memdb =
  row :: "(int \<times> bool) option"
  applied :: "string list"
  snapshot :: "((int \<times> bool) option \<times> string list) option"

definition parse_setState :: "string \<Rightarrow> string \<Rightarrow> (int \<times> bool) option" where
  "parse_setState stateTable stmt =
     (let r = drop (length (''update '' @ stateTable @ '' set version = '')) stmt;
          num = takeWhile (\<lambda>c. c \<noteq> CHR '','') r;
          rest = dropWhile (\<lambda>c. c \<noteq> CHR '','') r
      in case Atoi num of
           None \<Rightarrow> None
         | Some v \<Rightarrow>
             if rest = '', dirty = true'' then Some (v, True)
             else if rest = '', dirty = false'' then Some (v, False)
             else None)"

definition memdb_exec :: "string \<Rightarrow> string list \<Rightarrow> string \<Rightarrow> memdb \<Rightarrow> oserr option \<times> memdb" where
  "memdb_exec stateTable bad stmt d =
     (if HasPrefix stmt (''update '' @ stateTable @ '' set version = '') then
        (case parse_setState stateTable stmt of
           None \<Rightarrow> (Some ''syntax error'', d)
         | Some s \<Rightarrow>
             (case row d of
                None \<Rightarrow> (Some ''no such table'', d)
              | Some old \<Rightarrow> (None, d\<lparr>row := Some s\<rparr>)))
      else if stmt \<in> set bad then
        (Some ''syntax error'', d\<lparr>applied := applied d @ [''part of '' @ stmt]\<rparr>)
      else (None, d\<lparr>applied := applied d @ [stmt]\<rparr>))"

definition memdb_query :: "string \<Rightarrow> string \<Rightarrow> memdb \<Rightarrow> oserr + (int \<times> bool)" where
  "memdb_query stateTable stmt d =
     (if stmt = stateSQL stateTable then
        (case row d of None \<Rightarrow> Inl ''no such table'' | Some s \<Rightarrow> Inr s)
      else Inl ''syntax error'')"

definition memdb_begin :: "memdb \<Rightarrow> oserr + memdb" where
  "memdb_begin d =
     (case snapshot d of
        Some s \<Rightarrow> Inl ''transaction already open''
      | None \<Rightarrow> Inr (d\<lparr>snapshot := Some (row d, applied d)\<rparr>))"

definition memdb_commit :: "memdb \<Rightarrow> oserr option \<times> memdb" where
  "memdb_commit d =
     (case snapshot d of
        None \<Rightarrow> (Some ''no transaction'', d)
      | Some s \<Rightarrow> (None, d\<lparr>snapshot := None\<rparr>))"

definition memdb_origin :: "memdb \<Rightarrow> memdb" where
  "memdb_origin d =
     (case snapshot d of
        None \<Rightarrow> \<lparr>row = None, applied = [], snapshot = None\<rparr>
      | Some (r, a) \<Rightarrow> \<lparr>row = r, applied = a, snapshot = None\<rparr>)"

definition memdb_rollback :: "memdb \<Rightarrow> oserr option \<times> memdb" where
  "memdb_rollback d =
     (case snapshot d of
        None \<Rightarrow> (Some ''no transaction'', d)
      | Some s \<Rightarrow> (None, memdb_origin d))"

definition memdb_driver :: "string \<Rightarrow> string list \<Rightarrow> memdb driver" where
  "memdb_driver stateTable bad =
     \<lparr>exec_stmt = memdb_exec stateTable bad,
      query_row = memdb_query stateTable,
      begin_tx = memdb_begin,
      commit_tx = memdb_commit,
      rollback_tx = memdb_rollback\<rparr>"

text \<open>Concrete inputs: three migrations with gaps between their versions, and a world
  whose database holds the state table at version 1, clean or dirty.\<close>

definition three_migrations :: "migration list" where
  "three_migrations =
     [\<lparr>migration.version = 1, name = ''001_a.sql'', query = ''create table a''\<rparr>,
      \<lparr>migration.version = 3, name = ''003_b.sql'', query = ''create table b''\<rparr>,
      \<lparr>migration.version = 7, name = ''7_c.sql'', query = ''create table c''\<rparr>]"

definition world_at :: "int \<Rightarrow> bool \<Rightarrow> memdb world" where
  "world_at v d =
     \<lparr>db = \<lparr>row = Some (v, d), applied = [], snapshot = None\<rparr>, calls = [], stdout = []\<rparr>"

section \<open>Properties of the loader\<close>

subsection \<open>The pattern\<close>

lemma Contains_iff: "Contains s p \<longleftrightarrow> (\<exists>a b. s = a @ p @ b)"
proof (induction s)
  case Nil
  then show ?case by auto
next
  case (Cons c cs)
  have pre: "HasPrefix (c # cs) p \<longleftrightarrow> (\<exists>b. c # cs = p @ b)"
    unfolding HasPrefix_def by (metis append_eq_conv_conj append_take_drop_id)
  show ?case
  proof
    assume "Contains (c # cs) p"
    then consider "HasPrefix (c # cs) p" | "Contains cs p" by auto
    then show "\<exists>a b. c # cs = a @ p @ b"
    proof cases
      case 1
      then obtain b where "c # cs = p @ b" using pre by blast
      then have "c # cs = [] @ p @ b" by simp
      then show ?thesis by blast
    next
      case 2
      then obtain a b where "cs = a @ p @ b" using Cons.IH by blast
      then have "c # cs = (c # a) @ p @ b" by simp
      then show ?thesis by blast
    qed
  next
    assume "\<exists>a b. c # cs = a @ p @ b"
    then obtain a b where ab: "c # cs = a @ p @ b" by blast
    show "Contains (c # cs) p"
    proof (cases a)
      case Nil
      then have "HasPrefix (c # cs) p" using ab pre by auto
      then show ?thesis by simp
    next
      case (Cons a0 as)
      then have "cs = as @ p @ b" using ab by simp
      then have "Contains cs p" using Cons.IH by blast
      then show ?thesis by simp
    qed
  qed
qed

text \<open>A match of the pattern at the start of \<open>s\<close>, word for word: a non-empty run of
  digits \<open>g\<close>, the underscore, any bytes \<open>mid\<close> without a newline, then \<open>.sql\<close>.\<close>

lemma match_at_iff:
  "match_at s = Some g \<longleftrightarrow>
     (\<exists>mid rest. s = g @ ''_'' @ mid @ ''.sql'' @ rest \<and>
        g \<noteq> [] \<and> list_all isDigit g \<and> newline \<notin> set mid)"
proof
  assume m: "match_at s = Some g"
  let ?r = "dropWhile isDigit s"
  from m have g: "g = takeWhile isDigit s" "g \<noteq> []" "?r \<noteq> []" "hd ?r = CHR ''_''"
    and c: "Contains (takeWhile (\<lambda>c. c \<noteq> newline) (tl ?r)) ''.sql''"
    by (auto simp: match_at_def Let_def split: if_splits)
  from c obtain mid b where mb: "takeWhile (\<lambda>c. c \<noteq> newline) (tl ?r) = mid @ ''.sql'' @ b"
    unfolding Contains_iff by blast
  have "set (takeWhile (\<lambda>c. c \<noteq> newline) (tl ?r)) \<subseteq> {c. c \<noteq> newline}"
    by (auto dest: set_takeWhileD)
  then have nl: "newline \<notin> set mid" unfolding mb by auto
  have "tl ?r = takeWhile (\<lambda>c. c \<noteq> newline) (tl ?r) @ dropWhile (\<lambda>c. c \<noteq> newline) (tl ?r)"
    by simp
  then have t: "tl ?r = mid @ ''.sql'' @ (b @ dropWhile (\<lambda>c. c \<noteq> newline) (tl ?r))"
    unfolding mb by simp
  have "?r = CHR ''_'' # tl ?r" using g(3,4) by (cases ?r) auto
  then have "s = g @ ''_'' @ tl ?r" using g(1) by (metis append_Cons append_Nil takeWhile_dropWhile_id)
  then have "s = g @ ''_'' @ mid @ ''.sql'' @ (b @ dropWhile (\<lambda>c. c \<noteq> newline) (tl ?r))"
    using t by simp
  moreover have "list_all isDigit g" unfolding g(1) by (auto simp: list_all_iff dest: set_takeWhileD)
  ultimately show "\<exists>mid rest. s = g @ ''_'' @ mid @ ''.sql'' @ rest \<and>
        g \<noteq> [] \<and> list_all isDigit g \<and> newline \<notin> set mid"
    using g(2) nl by blast
next
  assume "\<exists>mid rest. s = g @ ''_'' @ mid @ ''.sql'' @ rest \<and>
        g \<noteq> [] \<and> list_all isDigit g \<and> newline \<notin> set mid"
  then obtain mid rest where s: "s = g @ CHR ''_'' # (mid @ ''.sql'' @ rest)"
    and g: "g \<noteq> []" "list_all isDigit g" and nl: "newline \<notin> set mid"
    by auto
  have u: "\<not> isDigit (CHR ''_'')" by (simp add: isDigit_def)
  have dg: "\<forall>x \<in> set g. isDigit x" using g(2) by (simp add: list_all_iff)
  have tw: "takeWhile isDigit s = g" unfolding s using dg u by (simp add: takeWhile_tail)
  have dw: "dropWhile isDigit s = CHR ''_'' # (mid @ ''.sql'' @ rest)"
    unfolding s using dg u by (simp add: dropWhile_append3)
  have n4: "\<forall>x \<in> set (mid @ ''.sql''). x \<noteq> newline" using nl by (auto simp: newline_def)
  have "takeWhile (\<lambda>c. c \<noteq> newline) ((mid @ ''.sql'') @ rest) =
          (mid @ ''.sql'') @ takeWhile (\<lambda>c. c \<noteq> newline) rest"
    by (rule takeWhile_append2) (use n4 in blast)
  then have "Contains (takeWhile (\<lambda>c. c \<noteq> newline) (mid @ ''.sql'' @ rest)) ''.sql''"
    unfolding Contains_iff by (metis append.assoc)
  then show "match_at s = Some g"
    unfolding match_at_def Let_def tw dw using g(1) by simp
qed

text \<open>\<^verbatim>\<open>FindStringSubmatch\<close> finds a match exactly when the pattern matches at some
  position of the name, and the match it returns is the one at the leftmost such position.\<close>

lemma FindStringSubmatch_iff:
  "FindStringSubmatch s = Some g \<longleftrightarrow>
     (\<exists>pre suf. s = pre @ suf \<and> match_at suf = Some g \<and>
        (\<forall>k < length pre. match_at (drop k s) = None))"
proof (induction s)
  case Nil
  then show ?case by auto
next
  case (Cons c cs)
  show ?case
  proof (cases "match_at (c # cs)")
    case (Some h)
    have "(\<exists>pre suf. c # cs = pre @ suf \<and> match_at suf = Some g \<and>
        (\<forall>k < length pre. match_at (drop k (c # cs)) = None)) \<longleftrightarrow> h = g"
    proof
      assume "\<exists>pre suf. c # cs = pre @ suf \<and> match_at suf = Some g \<and>
        (\<forall>k < length pre. match_at (drop k (c # cs)) = None)"
      then obtain pre suf where ps: "c # cs = pre @ suf" "match_at suf = Some g"
        "\<forall>k < length pre. match_at (drop k (c # cs)) = None" by blast
      have "pre = []"
      proof (rule ccontr)
        assume "pre \<noteq> []"
        then have "0 < length pre" by simp
        then have "match_at (drop 0 (c # cs)) = None" using ps(3) by blast
        then show False using Some by simp
      qed
      then show "h = g" using ps Some by simp
    next
      assume "h = g"
      then have "c # cs = [] @ (c # cs) \<and> match_at (c # cs) = Some g \<and>
        (\<forall>k < length ([] :: string). match_at (drop k (c # cs)) = None)"
        using Some by simp
      then show "\<exists>pre suf. c # cs = pre @ suf \<and> match_at suf = Some g \<and>
        (\<forall>k < length pre. match_at (drop k (c # cs)) = None)" by blast
    qed
    then show ?thesis using Some by simp
  next
    case None
    have "(\<exists>pre suf. c # cs = pre @ suf \<and> match_at suf = Some g \<and>
        (\<forall>k < length pre. match_at (drop k (c # cs)) = None)) \<longleftrightarrow>
      (\<exists>pre suf. cs = pre @ suf \<and> match_at suf = Some g \<and>
        (\<forall>k < length pre. match_at (drop k cs) = None))"
    proof
      assume "\<exists>pre suf. c # cs = pre @ suf \<and> match_at suf = Some g \<and>
        (\<forall>k < length pre. match_at (drop k (c # cs)) = None)"
      then obtain pre suf where ps: "c # cs = pre @ suf" "match_at suf = Some g"
        "\<forall>k < length pre. match_at (drop k (c # cs)) = None" by blast
      then have "pre \<noteq> []" using None by auto
      then obtain pre' where pre: "pre = c # pre'" using ps(1) by (cases pre) auto
      have "\<forall>k < length pre'. match_at (drop k cs) = None"
      proof (intro allI impI)
        fix k assume "k < length pre'"
        then have "Suc k < length pre" using pre by simp
        then have "match_at (drop (Suc k) (c # cs)) = None" using ps(3) by blast
        then show "match_at (drop k cs) = None" by simp
      qed
      then have "cs = pre' @ suf \<and> match_at suf = Some g \<and>
        (\<forall>k < length pre'. match_at (drop k cs) = None)" using ps pre by simp
      then show "\<exists>pre suf. cs = pre @ suf \<and> match_at suf = Some g \<and>
        (\<forall>k < length pre. match_at (drop k cs) = None)" by blast
    next
      assume "\<exists>pre suf. cs = pre @ suf \<and> match_at suf = Some g \<and>
        (\<forall>k < length pre. match_at (drop k cs) = None)"
      then obtain pre suf where ps: "cs = pre @ suf" "match_at suf = Some g"
        "\<forall>k < length pre. match_at (drop k cs) = None" by blast
      have "\<forall>k < length (c # pre). match_at (drop k (c # cs)) = None"
      proof (intro allI impI)
        fix k assume k: "k < length (c # pre)"
        show "match_at (drop k (c # cs)) = None"
        proof (cases k)
          case 0
          then show ?thesis using None by simp
        next
          case (Suc j)
          then have "j < length pre" using k by simp
          then show ?thesis using ps(3) Suc by simp
        qed
      qed
      then have "c # cs = (c # pre) @ suf \<and> match_at suf = Some g \<and>
        (\<forall>k < length (c # pre). match_at (drop k (c # cs)) = None)" using ps by simp
      then show "\<exists>pre suf. c # cs = pre @ suf \<and> match_at suf = Some g \<and>
        (\<forall>k < length pre. match_at (drop k (c # cs)) = None)" by blast
    qed
    then show ?thesis using None Cons.IH by simp
  qed
qed

lemma HasSuffix_Contains: "HasSuffix s p \<Longrightarrow> Contains s p"
proof -
  assume "HasSuffix s p"
  then have "s = take (length s - length p) s @ p @ []"
    unfolding HasSuffix_def by (metis append_Nil2 append_take_drop_id)
  then show ?thesis unfolding Contains_iff by blast
qed

text \<open>On a name of the anchored shape the pattern matches at the start, and the version is
  read from the leading digits: the code and the specification differ only on names that
  do not have the shape.\<close>

lemma anchored_shape_found:
  assumes "anchored_shape nm"
  shows "FindStringSubmatch nm = Some (takeWhile isDigit nm)"
proof -
  let ?r = "dropWhile isDigit nm"
  from assms have a: "takeWhile isDigit nm \<noteq> []" "?r \<noteq> []" "hd ?r = CHR ''_''"
    "HasSuffix (tl ?r) ''.sql''" "newline \<notin> set (tl ?r)"
    by (simp_all add: anchored_shape_def Let_def)
  have tw: "takeWhile (\<lambda>c. c \<noteq> newline) (tl ?r) = tl ?r"
    using a(5) by (simp add: takeWhile_eq_all_conv) blast
  have "Contains (takeWhile (\<lambda>c. c \<noteq> newline) (tl ?r)) ''.sql''"
    unfolding tw by (rule HasSuffix_Contains [OF a(4)])
  then have m: "match_at nm = Some (takeWhile isDigit nm)"
    using a(1,2,3) by (simp add: match_at_def Let_def)
  from a(1) obtain c cs where "nm = c # cs" by (cases nm) auto
  then show ?thesis using m by simp
qed

subsection \<open>The first and the second loop of parseMigrations\<close>

lemma mset_remove_nth:
  "i < length ys \<Longrightarrow> add_mset (ys ! i) (mset (take i ys @ drop (Suc i) ys)) = mset ys"
proof -
  assume "i < length ys"
  then have "mset ys = mset (take i ys @ ys ! i # drop (Suc i) ys)"
    using id_take_nth_drop by metis
  then show ?thesis by simp
qed

lemma mset_range_order: "mset (range_order choices xs) = mset xs"
proof (induction choices xs rule: range_order.induct)
  case (3 c cs x xs)
  define ys where "ys = x # xs"
  define i where "i = c mod length ys"
  define rest where "rest = take i ys @ drop (Suc i) ys"
  have lt: "i < length ys" unfolding i_def ys_def by simp
  have ih: "mset (range_order cs rest) = mset rest"
    using 3 [OF refl] unfolding rest_def i_def ys_def .
  have "range_order (c # cs) (x # xs) = ys ! i # range_order cs rest"
    unfolding range_order.simps Let_def rest_def i_def ys_def ..
  then have "mset (range_order (c # cs) (x # xs)) = add_mset (ys ! i) (mset rest)"
    using ih by simp
  also have "\<dots> = mset ys" unfolding rest_def by (rule mset_remove_nth [OF lt])
  finally show ?case unfolding ys_def .
qed simp_all

text \<open>Every order of the entries is the order of some choices: \<open>range_order\<close> leaves
  no order of the range over the map out.\<close>

lemma range_order_complete:
  "mset ys = mset xs \<Longrightarrow> \<exists>choices. range_order choices xs = ys"
proof (induction ys arbitrary: xs)
  case Nil
  then show ?case by simp
next
  case (Cons y ys)
  then have "y \<in> set xs" by (metis list.set_intros(1) mset_eq_setD)
  then obtain i where i: "i < length xs" "xs ! i = y" by (auto simp: in_set_conv_nth)
  then obtain x xs' where xs: "xs = x # xs'" by (cases xs) auto
  let ?rest = "take i xs @ drop (Suc i) xs"
  have "add_mset y (mset ?rest) = mset xs" using mset_remove_nth [OF i(1)] i(2) by simp
  then have "add_mset y (mset ys) = add_mset y (mset ?rest)" using Cons.prems by simp
  then have "mset ys = mset ?rest" by simp
  from Cons.IH [OF this] obtain cs where cs: "range_order cs ?rest = ys" ..
  have "i mod length (x # xs') = i" using i(1) xs by simp
  then have "range_order (i # cs) (x # xs') = (x # xs') ! i #
      range_order cs (take i (x # xs') @ drop (Suc i) (x # xs'))"
    unfolding range_order.simps Let_def by simp
  then have "range_order (i # cs) xs = y # ys" using cs i(2) xs by simp
  then show ?case ..
qed

lemma dec_value_foldl_nonneg:
  "0 \<le> a \<Longrightarrow> list_all isDigit ds \<Longrightarrow> 0 \<le> foldl (\<lambda>a c. 10 * a + digit_val c) a ds"
proof (induction ds arbitrary: a)
  case (Cons d ds)
  have "0 \<le> digit_val d" using Cons.prems(2) by (auto simp: isDigit_def digit_val_def)
  then show ?case using Cons by simp
qed simp

lemma match_at_digits: "match_at s = Some g \<Longrightarrow> g \<noteq> [] \<and> list_all isDigit g"
  by (auto simp: match_at_def Let_def list_all_iff split: if_splits dest: set_takeWhileD)

lemma FindStringSubmatch_digits:
  "FindStringSubmatch s = Some g \<Longrightarrow> g \<noteq> [] \<and> list_all isDigit g"
proof (induction s)
  case Nil
  then show ?case using match_at_digits by simp
next
  case (Cons c cs)
  then show ?case using match_at_digits [of "c # cs" g] by (auto split: option.splits)
qed

lemma Atoi_digits:
  "g \<noteq> [] \<Longrightarrow> list_all isDigit g \<Longrightarrow>
     Atoi g = (if dec_value g \<le> 2 ^ 63 - 1 then Some (dec_value g) else None)"
proof -
  assume g: "g \<noteq> []" "list_all isDigit g"
  then have "isDigit (hd g)" by (cases g) auto
  then have hd: "hd g \<noteq> CHR ''-''" "hd g \<noteq> CHR ''+''" by (auto simp: isDigit_def)
  have "0 \<le> dec_value g" unfolding dec_value_def using g by (intro dec_value_foldl_nonneg) auto
  then show ?thesis using g hd by (simp add: Atoi_def Let_def)
qed

lemma parseMigrationName_Ok: "parseMigrationName nm = Ok v \<Longrightarrow> 1 \<le> v"
proof -
  assume a: "parseMigrationName nm = Ok v"
  then obtain g where g: "FindStringSubmatch nm = Some g"
    by (auto simp: parseMigrationName_def split: option.splits)
  from FindStringSubmatch_digits [OF g] have d: "g \<noteq> []" "list_all isDigit g" by auto
  have "0 \<le> dec_value g" unfolding dec_value_def using d by (intro dec_value_foldl_nonneg) auto
  with a g d show ?thesis
    by (auto simp: parseMigrationName_def Atoi_digits split: option.splits if_splits)
qed

lemma collect_keyed: "collect es acc = Ok r \<Longrightarrow> keyed acc \<Longrightarrow> keyed r"
proof (induction es arbitrary: acc)
  case Nil
  then show ?case by simp
next
  case (Cons e es)
  show ?case
  proof (cases "IsDir e \<or> \<not> HasSuffix (Name e) ''.sql''")
    case True
    with Cons.prems(1) have "collect es acc = Ok r" by (auto split: if_splits)
    then show ?thesis using Cons.IH Cons.prems(2) by blast
  next
    case False
    with Cons.prems(1) obtain v q where v: "parseMigrationName (Name e) = Ok v"
      and n: "map_of acc v = None" and q: "ReadFile e = Inr q"
      and c: "collect es (acc @ [(v, \<lparr>migration.version = v, name = Name e, query = q\<rparr>)]) = Ok r"
      by (auto split: result.splits option.splits sum.splits)
    have "v \<notin> fst ` set acc" using n by (simp add: map_of_eq_None_iff)
    then have "keyed (acc @ [(v, \<lparr>migration.version = v, name = Name e, query = q\<rparr>)])"
      using Cons.prems(2) parseMigrationName_Ok [OF v] by (auto simp: keyed_def)
    then show ?thesis using Cons.IH [OF c] by simp
  qed
qed

lemma keyed_versions: "keyed kms \<Longrightarrow> map migration.version (map snd kms) = map fst kms"
  by (induction kms) (auto simp: keyed_def)

lemma distinct_map_mset:
  "mset xs = mset ys \<Longrightarrow> distinct (map f xs) \<Longrightarrow> distinct (map f ys)"
  by (metis distinct_count_atmost_1 mset_map set_mset_mset)

lemma keyed_props:
  assumes "keyed kms"
  shows "distinct (map migration.version (map snd kms))"
    and "\<forall>m \<in> set (map snd kms). 1 \<le> migration.version m"
proof -
  show "distinct (map migration.version (map snd kms))"
    unfolding keyed_versions [OF assms] using assms by (simp add: keyed_def)
  show "\<forall>m \<in> set (map snd kms). 1 \<le> migration.version m"
    using assms by (auto simp: keyed_def list_all_iff)
qed





text \<open>
  C9. \<^verbatim>\<open>parseMigrations\<close> is deterministic. Two calls on a directory with the same
  entries (file names are distinct within a directory) return the same result, whatever
  the order in which the operating system lists the entries and whatever the order in
  which the two ranges over the map visit it: the same list of migrations, or the same
  error, with the same file names in it.
\<close>

theorem parseMigrations_deterministic:
  assumes "mset es1 = mset es2" and "distinct (map Name es1)"
  shows "parseMigrations choices1 (Inr es1) = parseMigrations choices2 (Inr es2)"
proof -
  have inj: "inj_on Name (set es1)" using assms(2) by (simp add: distinct_map)
  have s: "sort_key Name es1 = sort_key Name es2"
    by (rule sort_key_inj_key_eq [OF _ inj]) (simp_all add: assms(1))
  show ?thesis
  proof (cases "collect (sort_key Name es2) []")
    case (Ok kms)
    have k: "keyed kms" using collect_keyed [OF Ok] by (simp add: keyed_def)
    let ?xs = "map snd kms"
    have d: "distinct (map migration.version (range_order choices1 ?xs))"
      using distinct_map_mset [OF mset_range_order [symmetric]] keyed_props(1) [OF k] by blast
    have "sort_key migration.version (range_order choices1 ?xs) =
          sort_key migration.version (range_order choices2 ?xs)"
      by (rule sort_key_inj_key_eq) (use d in \<open>simp_all add: mset_range_order distinct_map\<close>)
    then show ?thesis using Ok s by (simp add: parseMigrations_def ReadDir_def sort_Slice_def)
  qed (simp_all add: parseMigrations_def ReadDir_def s)
qed


theorem parseMigrations_deterministic_witness:
  "mset [\<lparr>Name = ''2_b.sql'', IsDir = False, ReadFile = Inr ''B''\<rparr>,
         \<lparr>Name = ''002_.sql'', IsDir = False, ReadFile = Inr ''A''\<rparr>] =
   mset [\<lparr>Name = ''002_.sql'', IsDir = False, ReadFile = Inr ''A''\<rparr>,
         \<lparr>Name = ''2_b.sql'', IsDir = False, ReadFile = Inr ''B''\<rparr>] \<and>
   distinct (map Name [\<lparr>Name = ''2_b.sql'', IsDir = False, ReadFile = Inr ''B''\<rparr>,
         \<lparr>Name = ''002_.sql'', IsDir = False, ReadFile = Inr ''A''\<rparr>]) \<and>
   parseMigrations [0]
     (Inr [\<lparr>Name = ''2_b.sql'', IsDir = False, ReadFile = Inr ''B''\<rparr>,
           \<lparr>Name = ''002_.sql'', IsDir = False, ReadFile = Inr ''A''\<rparr>]) =
   parseMigrations [1]
     (Inr [\<lparr>Name = ''002_.sql'', IsDir = False, ReadFile = Inr ''A''\<rparr>,
           \<lparr>Name = ''2_b.sql'', IsDir = False, ReadFile = Inr ''B''\<rparr>]) \<and>
   parseMigrations [1]
     (Inr [\<lparr>Name = ''002_.sql'', IsDir = False, ReadFile = Inr ''A''\<rparr>,
           \<lparr>Name = ''2_b.sql'', IsDir = False, ReadFile = Inr ''B''\<rparr>]) =
   Err (DuplicateVersion ''2_b.sql'' ''002_.sql'')"
proof -
  have m: "mset [\<lparr>Name = ''2_b.sql'', IsDir = False, ReadFile = Inr ''B''\<rparr>,
         \<lparr>Name = ''002_.sql'', IsDir = False, ReadFile = Inr ''A''\<rparr>] =
   mset [\<lparr>Name = ''002_.sql'', IsDir = False, ReadFile = Inr ''A''\<rparr>,
         \<lparr>Name = ''2_b.sql'', IsDir = False, ReadFile = Inr ''B''\<rparr>]"
    by simp
  have d: "distinct (map Name [\<lparr>Name = ''2_b.sql'', IsDir = False, ReadFile = Inr ''B''\<rparr>,
         \<lparr>Name = ''002_.sql'', IsDir = False, ReadFile = Inr ''A''\<rparr>])"
    by simp
  have r: "parseMigrations [1]
     (Inr [\<lparr>Name = ''002_.sql'', IsDir = False, ReadFile = Inr ''A''\<rparr>,
           \<lparr>Name = ''2_b.sql'', IsDir = False, ReadFile = Inr ''B''\<rparr>]) =
   Err (DuplicateVersion ''2_b.sql'' ''002_.sql'')"
    by code_simp
  from parseMigrations_deterministic [OF m d, of "[0]" "[1]"] m d r show ?thesis by blast
qed

text \<open>
  C7. A file whose name ends in \<^verbatim>\<open>.sql\<close> is to be refused with the invalid-name error
  unless the whole name has the anchored shape. The pattern of \<^verbatim>\<open>parseMigrationName\<close>
  has no anchor, and \<^verbatim>\<open>FindStringSubmatch\<close> finds the digits and the underscore anywhere:
  the name \<^verbatim>\<open>a1_b.sql\<close> does not begin with a digit, and \<^verbatim>\<open>parseMigrations\<close> loads it as
  version 1 instead of failing.
\<close>

theorem parseMigrations_accepts_unanchored_name:
  "HasSuffix ''a1_b.sql'' ''.sql'' \<and> \<not> anchored_shape ''a1_b.sql'' \<and>
   parseMigrationName ''a1_b.sql'' = Ok 1 \<and>
   parseMigrations []
     (Inr [\<lparr>Name = ''a1_b.sql'', IsDir = False, ReadFile = Inr ''select 1''\<rparr>]) =
   Ok [\<lparr>migration.version = 1, name = ''a1_b.sql'', query = ''select 1''\<rparr>]"
  by code_simp

text \<open>
  C10. \<^verbatim>\<open>parseMigrations\<close> is to return a list of migrations or an error for every
  directory, and never to panic, also when the digit run of a name is beyond the range
  of \<^verbatim>\<open>int\<close>. The name \<^verbatim>\<open>9223372036854775808_a.sql\<close> has the anchored shape, the pattern
  finds its digit run, which is \<open>2 ^ 63\<close>, one more than the largest \<^verbatim>\<open>int\<close>, and
  \<^verbatim>\<open>strconv.Atoi\<close> fails on it: \<^verbatim>\<open>parseMigrationName\<close> panics where its other two
  failures return an error, and so does \<^verbatim>\<open>parseMigrations\<close> on a directory holding a
  regular file of that name. One less, and the file is loaded.
\<close>

theorem parseMigrations_panics_on_long_digit_run:
  "anchored_shape ''9223372036854775808_a.sql'' \<and>
   FindStringSubmatch ''9223372036854775808_a.sql'' = Some ''9223372036854775808'' \<and>
   dec_value ''9223372036854775808'' = 2 ^ 63 \<and>
   Atoi ''9223372036854775808'' = None \<and>
   parseMigrationName ''9223372036854775808_a.sql'' = Panic \<and>
   parseMigrations []
     (Inr [\<lparr>Name = ''9223372036854775808_a.sql'', IsDir = False, ReadFile = Inr ''select 1''\<rparr>]) =
   Panic \<and>
   parseMigrations []
     (Inr [\<lparr>Name = ''9223372036854775807_a.sql'', IsDir = False, ReadFile = Inr ''select 1''\<rparr>]) =
   Ok [\<lparr>migration.version = 9223372036854775807, name = ''9223372036854775807_a.sql'',
        query = ''select 1''\<rparr>]"
  by code_simp

text \<open>Besides the errors for an unreadable directory, an invalid name, a zero version and
  a duplicate version, \<^verbatim>\<open>parseMigrations\<close> returns the error of \<^verbatim>\<open>os.ReadFile\<close> when a
  migration file cannot be read.\<close>

lemma parseMigrations_read_file_error:
  "parseMigrations []
     (Inr [\<lparr>Name = ''1_a.sql'', IsDir = False, ReadFile = Inl ''permission denied''\<rparr>]) =
   Err (ReadMigrationFile ''permission denied'')"
  by code_simp


section \<open>Properties of migrate\<close>

subsection \<open>The first and the second loop\<close>

lemma advance_pending:
  "sorted_wrt (<) (map migration.version ms) \<Longrightarrow> advance st ms = pending (state.version st) ms"
proof (induction ms)
  case Nil
  then show ?case by (simp add: pending_def)
next
  case (Cons m ms)
  show ?case
  proof (cases "migration.version m \<le> state.version st")
    case True
    then show ?thesis using Cons by (simp add: pending_def)
  next
    case False
    have "\<forall>x \<in> set ms. state.version st < migration.version x"
      using Cons.prems False by auto
    then have "filter (\<lambda>m. state.version st < migration.version m) ms = ms"
      by (simp add: filter_id_conv)
    then show ?thesis using False by (simp add: pending_def)
  qed
qed

lemma setState_None:
  "setState q tbl s w = (None, w') \<Longrightarrow>
     exec_stmt q (setStateSQL tbl s) (db w) = (None, db w') \<and>
     calls w' = calls w @ [Call_Exec (setStateSQL tbl s) None] \<and> stdout w' = stdout w"
  by (auto simp: setState_def ExecContext_def split: prod.splits option.splits)

lemma setState_Some:
  "setState q tbl s w = (Some err, w') \<Longrightarrow>
     (\<exists>e. err = WriteStateError e \<and> fst (exec_stmt q (setStateSQL tbl s) (db w)) = Some e \<and>
        calls w' = calls w @ [Call_Exec (setStateSQL tbl s) (Some e)]) \<and>
     db w' = snd (exec_stmt q (setStateSQL tbl s) (db w)) \<and> stdout w' = stdout w"
  by (auto simp: setState_def ExecContext_def split: prod.splits option.splits)

lemma ExecContext_result:
  "ExecContext q stmt w = (r, w') \<Longrightarrow>
     exec_stmt q stmt (db w) = (r, db w') \<and>
     calls w' = calls w @ [Call_Exec stmt r] \<and> stdout w' = stdout w"
  by (auto simp: ExecContext_def split: prod.splits)

lemma run_rest_dry:
  "run_rest q False tbl st ms w = (None, w\<lparr>stdout := stdout w @ map name ms\<rparr>)"
  by (induction ms arbitrary: w) simp_all

lemma run_rest_force_unfold:
  "run_rest q True tbl st (m # ms) w = (r, w') \<Longrightarrow>
   (\<exists>err. r = Some err \<and> setState q tbl (st\<lparr>dirty := True\<rparr>) (w\<lparr>stdout := stdout w @ [name m]\<rparr>) = (Some err, w')) \<or>
   (\<exists>w1. setState q tbl (st\<lparr>dirty := True\<rparr>) (w\<lparr>stdout := stdout w @ [name m]\<rparr>) = (None, w1) \<and>
     ((\<exists>e. r = Some (ExecError (name m) e) \<and> ExecContext q (query m) w1 = (Some e, w')) \<or>
      (\<exists>w2. ExecContext q (query m) w1 = (None, w2) \<and>
        ((\<exists>err. r = Some err \<and> setState q tbl \<lparr>state.version = migration.version m, dirty = False\<rparr> w2 = (Some err, w')) \<or>
         (\<exists>w3. setState q tbl \<lparr>state.version = migration.version m, dirty = False\<rparr> w2 = (None, w3) \<and>
            run_rest q True tbl \<lparr>state.version = migration.version m, dirty = False\<rparr> ms w3 = (r, w'))))))"
  by (auto simp: Let_def split: prod.splits option.splits)

lemma run_rest_success:
  "run_rest q True tbl st ms w = (None, w') \<Longrightarrow>
     calls w' = calls w @ applied_calls tbl (state.version st) ms \<and>
     stdout w' = stdout w @ map name ms"
proof (induction ms arbitrary: st w)
  case Nil
  then show ?case by simp
next
  case (Cons m ms)
  let ?w0 = "w\<lparr>stdout := stdout w @ [name m]\<rparr>"
  let ?s1 = "st\<lparr>dirty := True\<rparr>"
  let ?s2 = "\<lparr>state.version = migration.version m, dirty = False\<rparr>"
  from run_rest_force_unfold [OF Cons.prems] obtain w1 w2 w3 where
    1: "setState q tbl ?s1 ?w0 = (None, w1)" and
    2: "ExecContext q (query m) w1 = (None, w2)" and
    3: "setState q tbl ?s2 w2 = (None, w3)" and
    4: "run_rest q True tbl ?s2 ms w3 = (None, w')"
    by blast
  note a = setState_None [OF 1] and b = ExecContext_result [OF 2] and c = setState_None [OF 3]
  have s1: "?s1 = \<lparr>state.version = state.version st, dirty = True\<rparr>" by simp
  have c3: "calls w3 = calls w @ bracket tbl (state.version st) m"
    using a b c unfolding s1 by (simp add: bracket_def)
  have o3: "stdout w3 = stdout w @ [name m]"
    using a b c by simp
  show ?case using Cons.IH [OF 4] c3 o3 by simp
qed

text \<open>The persisted state along the second loop, on a database that reads back what was
  written and whose scripts leave the state table alone.\<close>

lemma bracket_state:
  assumes "write_then_read q tbl"
    and "script_keeps_state q tbl (query m)"
    and "persisted q tbl (db w) = Inr x"
    and "setState q tbl s1 w = (None, w1)"
    and "ExecContext q (query m) w1 = (r, w2)"
  shows "persisted q tbl (db w1) = Inr (state.version s1, dirty s1) \<and>
         persisted q tbl (db w2) = Inr (state.version s1, dirty s1)"
proof -
  have e1: "exec_stmt q (setStateSQL tbl s1) (db w) = (None, db w1)"
    using setState_None [OF assms(4)] by simp
  have p1: "persisted q tbl (db w1) = Inr (state.version s1, dirty s1)"
    using assms(1,3) e1 unfolding write_then_read_def by blast
  have "db w2 = snd (exec_stmt q (query m) (db w1))"
    using ExecContext_result [OF assms(5)] by simp
  then have "persisted q tbl (db w2) = persisted q tbl (db w1)"
    using assms(2) unfolding script_keeps_state_def by simp
  with p1 show ?thesis by simp
qed

lemma setState_state:
  assumes "write_then_read q tbl"
    and "persisted q tbl (db w) = Inr x"
    and "setState q tbl s w = (None, w')"
  shows "persisted q tbl (db w') = Inr (state.version s, dirty s)"
proof -
  have "exec_stmt q (setStateSQL tbl s) (db w) = (None, db w')"
    using setState_None [OF assms(3)] by simp
  then show ?thesis using assms(1,2) unfolding write_then_read_def by blast
qed

lemma run_rest_success_state:
  assumes "write_then_read q tbl"
  shows "list_all (\<lambda>m. script_keeps_state q tbl (query m)) ms \<Longrightarrow>
     persisted q tbl (db w) = Inr (state.version st, False) \<Longrightarrow>
     run_rest q True tbl st ms w = (None, w') \<Longrightarrow>
     persisted q tbl (db w') = Inr (last_version (state.version st) ms, False)"
proof (induction ms arbitrary: st w)
  case Nil
  then show ?case by (simp add: last_version_def)
next
  case (Cons m ms)
  let ?w0 = "w\<lparr>stdout := stdout w @ [name m]\<rparr>"
  let ?s1 = "st\<lparr>dirty := True\<rparr>"
  let ?s2 = "\<lparr>state.version = migration.version m, dirty = False\<rparr>"
  from run_rest_force_unfold [OF Cons.prems(3)] obtain w1 w2 w3 where
    1: "setState q tbl ?s1 ?w0 = (None, w1)" and
    2: "ExecContext q (query m) w1 = (None, w2)" and
    3: "setState q tbl ?s2 w2 = (None, w3)" and
    4: "run_rest q True tbl ?s2 ms w3 = (None, w')"
    by blast
  have k: "script_keeps_state q tbl (query m)"
    and ks: "list_all (\<lambda>m. script_keeps_state q tbl (query m)) ms"
    using Cons.prems(1) by simp_all
  have p0: "persisted q tbl (db ?w0) = Inr (state.version st, False)"
    using Cons.prems(2) by simp
  from bracket_state [OF assms k p0 1 2]
  have p2: "persisted q tbl (db w2) = Inr (state.version ?s1, dirty ?s1)" by simp
  from setState_state [OF assms p2 3]
  have p3: "persisted q tbl (db w3) = Inr (state.version ?s2, False)" by simp
  from Cons.IH [OF ks p3 4] show ?case by (simp add: last_version_def)
qed

lemma last_version_Cons:
  "last_version v (m # ms) = last_version (migration.version m) ms"
  by (simp add: last_version_def)

lemma run_rest_exec_error:
  assumes "write_then_read q tbl"
  shows "list_all (\<lambda>m. script_keeps_state q tbl (query m)) ms \<Longrightarrow>
     persisted q tbl (db w) = Inr (state.version st, False) \<Longrightarrow>
     run_rest q True tbl st ms w = (Some (ExecError nm e), w') \<Longrightarrow>
     \<exists>pre m post. ms = pre @ m # post \<and> nm = name m \<and>
        calls w' = calls w @ applied_calls tbl (state.version st) pre @
          [Call_Exec (setStateSQL tbl
             \<lparr>state.version = last_version (state.version st) pre, dirty = True\<rparr>) None,
           Call_Exec (query m) (Some e)] \<and>
        stdout w' = stdout w @ map name (pre @ [m]) \<and>
        persisted q tbl (db w') = Inr (last_version (state.version st) pre, True)"
proof (induction ms arbitrary: st w)
  case Nil
  then show ?case by simp
next
  case (Cons m ms)
  let ?w0 = "w\<lparr>stdout := stdout w @ [name m]\<rparr>"
  let ?s1 = "st\<lparr>dirty := True\<rparr>"
  let ?s2 = "\<lparr>state.version = migration.version m, dirty = False\<rparr>"
  have s1: "?s1 = \<lparr>state.version = state.version st, dirty = True\<rparr>" by simp
  have k: "script_keeps_state q tbl (query m)"
    and ks: "list_all (\<lambda>m. script_keeps_state q tbl (query m)) ms"
    using Cons.prems(1) by simp_all
  have p0: "persisted q tbl (db ?w0) = Inr (state.version st, False)"
    using Cons.prems(2) by simp
  from run_rest_force_unfold [OF Cons.prems(3)]
  consider
    (a) "setState q tbl ?s1 ?w0 = (Some (ExecError nm e), w')"
  | (b) w1 where "setState q tbl ?s1 ?w0 = (None, w1)" "nm = name m"
        "ExecContext q (query m) w1 = (Some e, w')"
  | (c) w2 where "setState q tbl ?s2 w2 = (Some (ExecError nm e), w')"
  | (d) w1 w2 w3 where "setState q tbl ?s1 ?w0 = (None, w1)"
        "ExecContext q (query m) w1 = (None, w2)"
        "setState q tbl ?s2 w2 = (None, w3)"
        "run_rest q True tbl ?s2 ms w3 = (Some (ExecError nm e), w')"
    by auto
  then show ?case
  proof cases
    case a
    then show ?thesis using setState_Some by blast
  next
    case b
    note x = setState_None [OF b(1)] and y = ExecContext_result [OF b(3)]
    from bracket_state [OF assms k p0 b(1) b(3)]
    have p: "persisted q tbl (db w') = Inr (state.version st, True)" by simp
    have 1: "m # ms = [] @ m # ms" by simp
    have 2: "calls w' = calls w @ applied_calls tbl (state.version st) [] @
          [Call_Exec (setStateSQL tbl
             \<lparr>state.version = last_version (state.version st) [], dirty = True\<rparr>) None,
           Call_Exec (query m) (Some e)]"
      using x y unfolding s1 by (simp add: last_version_def)
    have 3: "stdout w' = stdout w @ map name ([] @ [m])" using x y by simp
    have 4: "persisted q tbl (db w') = Inr (last_version (state.version st) [], True)"
      using p by (simp add: last_version_def)
    show ?thesis
      by (rule exI [of _ "[]"], rule exI [of _ m], rule exI [of _ ms])
         (intro conjI 1 b(2) 2 3 4)
  next
    case c
    then show ?thesis using setState_Some by blast
  next
    case d
    note x = setState_None [OF d(1)] and y = ExecContext_result [OF d(2)]
      and z = setState_None [OF d(3)]
    have c3: "calls w3 = calls w @ bracket tbl (state.version st) m"
      using x y z unfolding s1 by (simp add: bracket_def)
    have o3: "stdout w3 = stdout w @ [name m]" using x y z by simp
    from bracket_state [OF assms k p0 d(1) d(2)]
    have p2: "persisted q tbl (db w2) = Inr (state.version ?s1, dirty ?s1)" by simp
    from setState_state [OF assms p2 d(3)]
    have p3: "persisted q tbl (db w3) = Inr (state.version ?s2, False)" by simp
    from Cons.IH [OF ks p3 d(4)] obtain pre where
      "\<exists>m' post. ms = pre @ m' # post \<and> nm = name m' \<and>
        calls w' = calls w3 @ applied_calls tbl (state.version ?s2) pre @
          [Call_Exec (setStateSQL tbl
             \<lparr>state.version = last_version (state.version ?s2) pre, dirty = True\<rparr>) None,
           Call_Exec (query m') (Some e)] \<and>
        stdout w' = stdout w3 @ map name (pre @ [m']) \<and>
        persisted q tbl (db w') = Inr (last_version (state.version ?s2) pre, True)" ..
    then obtain m' where
      "\<exists>post. ms = pre @ m' # post \<and> nm = name m' \<and>
        calls w' = calls w3 @ applied_calls tbl (state.version ?s2) pre @
          [Call_Exec (setStateSQL tbl
             \<lparr>state.version = last_version (state.version ?s2) pre, dirty = True\<rparr>) None,
           Call_Exec (query m') (Some e)] \<and>
        stdout w' = stdout w3 @ map name (pre @ [m']) \<and>
        persisted q tbl (db w') = Inr (last_version (state.version ?s2) pre, True)" ..
    then obtain post where
      ih0: "ms = pre @ m' # post \<and> nm = name m' \<and>
        calls w' = calls w3 @ applied_calls tbl (state.version ?s2) pre @
          [Call_Exec (setStateSQL tbl
             \<lparr>state.version = last_version (state.version ?s2) pre, dirty = True\<rparr>) None,
           Call_Exec (query m') (Some e)] \<and>
        stdout w' = stdout w3 @ map name (pre @ [m']) \<and>
        persisted q tbl (db w') = Inr (last_version (state.version ?s2) pre, True)" ..
    have v2: "state.version ?s2 = migration.version m" by simp
    note ih = ih0 [unfolded v2]
    have 1: "m # ms = (m # pre) @ m' # post" using ih by simp
    have n: "nm = name m'" using ih by simp
    have 2: "calls w' = calls w @ applied_calls tbl (state.version st) (m # pre) @
          [Call_Exec (setStateSQL tbl
             \<lparr>state.version = last_version (state.version st) (m # pre), dirty = True\<rparr>) None,
           Call_Exec (query m') (Some e)]"
      using ih c3 unfolding last_version_Cons by simp
    have 3: "stdout w' = stdout w @ map name ((m # pre) @ [m'])" using ih o3 by simp
    have 4: "persisted q tbl (db w') = Inr (last_version (state.version st) (m # pre), True)"
      using ih unfolding last_version_Cons by simp
    show ?thesis
      by (rule exI [of _ "m # pre"], rule exI [of _ m'], rule exI [of _ post])
         (intro conjI 1 n 2 3 4)
  qed
qed

lemma run_rest_statements:
  assumes "\<forall>stmt d. origin (snd (exec_stmt q stmt d)) = origin d"
  shows "run_rest q force tbl st ms w = (r, w') \<Longrightarrow>
     (\<exists>body. calls w' = calls w @ body \<and> list_all is_statement body) \<and>
     origin (db w') = origin (db w)"
proof (induction ms arbitrary: st w)
  case Nil
  then show ?case by simp
next
  case (Cons m ms)
  let ?w0 = "w\<lparr>stdout := stdout w @ [name m]\<rparr>"
  let ?s1 = "st\<lparr>dirty := True\<rparr>"
  let ?s2 = "\<lparr>state.version = migration.version m, dirty = False\<rparr>"
  have ex: "\<And>stmt u r u'. ExecContext q stmt u = (r, u') \<Longrightarrow>
      calls u' = calls u @ [Call_Exec stmt r] \<and> origin (db u') = origin (db u)"
    using assms ExecContext_result by (metis snd_conv)
  have st: "\<And>s u r u'. setState q tbl s u = (r, u') \<Longrightarrow>
      (\<exists>x. calls u' = calls u @ [Call_Exec (setStateSQL tbl s) x]) \<and>
      origin (db u') = origin (db u)"
    using ex by (auto simp: setState_def split: prod.splits option.splits)
  show ?case
  proof (cases force)
    case False
    then have "run_rest q force tbl st ms ?w0 = (r, w')" using Cons.prems by simp
    from Cons.IH [OF this] show ?thesis by simp
  next
    case True
    then have f: "force = True" by simp
    from run_rest_force_unfold [OF Cons.prems [unfolded f]]
    consider
      (a) "setState q tbl ?s1 ?w0 = (r, w')"
    | (b) w1 x where "setState q tbl ?s1 ?w0 = (None, w1)" "ExecContext q (query m) w1 = (x, w')"
    | (c) w1 w2 where "setState q tbl ?s1 ?w0 = (None, w1)" "ExecContext q (query m) w1 = (None, w2)"
        "setState q tbl ?s2 w2 = (r, w')"
    | (d) w1 w2 w3 where "setState q tbl ?s1 ?w0 = (None, w1)"
        "ExecContext q (query m) w1 = (None, w2)"
        "setState q tbl ?s2 w2 = (None, w3)"
        "run_rest q force tbl ?s2 ms w3 = (r, w')"
      unfolding f by auto
    then show ?thesis
    proof cases
      case a
      from st [OF a] show ?thesis by auto
    next
      case b
      from st [OF b(1)] ex [OF b(2)] show ?thesis by auto
    next
      case c
      from st [OF c(1)] ex [OF c(2)] st [OF c(3)] show ?thesis by auto
    next
      case d
      from st [OF d(1)] ex [OF d(2)] st [OF d(3)] Cons.IH [OF d(4)] show ?thesis by auto
    qed
  qed
qed

text \<open>What the database does with calls made one after the other, and the second loop
  on a database that answers the brackets of the first migrations without error.\<close>

lemma after_calls_append:
  "after_calls q (xs @ ys) d =
     (case after_calls q xs d of None \<Rightarrow> None | Some d' \<Rightarrow> after_calls q ys d')"
  by (induction q xs d rule: after_calls.induct) (auto split: prod.splits)

lemma after_calls_bracket:
  "after_calls q (bracket tbl v m @ cs) d = Some d' \<Longrightarrow>
     \<exists>d1 d2 d3.
       exec_stmt q (setStateSQL tbl \<lparr>state.version = v, dirty = True\<rparr>) d = (None, d1) \<and>
       exec_stmt q (query m) d1 = (None, d2) \<and>
       exec_stmt q (setStateSQL tbl \<lparr>state.version = migration.version m, dirty = False\<rparr>) d2 =
         (None, d3) \<and>
       after_calls q cs d3 = Some d'"
  by (auto simp: bracket_def split: prod.splits if_splits)

lemma run_rest_after_calls:
  "after_calls q (applied_calls tbl v pre) (db w) = Some d1 \<Longrightarrow>
     run_rest q True tbl \<lparr>state.version = v, dirty = False\<rparr> (pre @ rest) w =
     run_rest q True tbl \<lparr>state.version = last_version v pre, dirty = False\<rparr> rest
       (w\<lparr>db := d1, calls := calls w @ applied_calls tbl v pre,
          stdout := stdout w @ map name pre\<rparr>)"
proof (induction pre arbitrary: v w)
  case Nil
  then show ?case by (auto simp: last_version_def)
next
  case (Cons p ps)
  from Cons.prems have "after_calls q (bracket tbl v p @ applied_calls tbl (migration.version p) ps)
      (db w) = Some d1"
    by simp
  from after_calls_bracket [OF this] obtain da db' dc where
    1: "exec_stmt q (setStateSQL tbl \<lparr>state.version = v, dirty = True\<rparr>) (db w) = (None, da)" and
    2: "exec_stmt q (query p) da = (None, db')" and
    3: "exec_stmt q (setStateSQL tbl \<lparr>state.version = migration.version p, dirty = False\<rparr>) db' =
         (None, dc)" and
    4: "after_calls q (applied_calls tbl (migration.version p) ps) dc = Some d1"
    by blast
  let ?w3 = "w\<lparr>stdout := stdout w @ [name p], db := dc, calls := calls w @ bracket tbl v p\<rparr>"
  have step: "run_rest q True tbl \<lparr>state.version = v, dirty = False\<rparr> ((p # ps) @ rest) w =
      run_rest q True tbl \<lparr>state.version = migration.version p, dirty = False\<rparr> (ps @ rest) ?w3"
    using 1 2 3 by (simp add: Let_def setState_def ExecContext_def bracket_def)
  have r4: "after_calls q (applied_calls tbl (migration.version p) ps) (db ?w3) = Some d1"
    using 4 by simp
  have "?w3\<lparr>db := d1, calls := calls ?w3 @ applied_calls tbl (migration.version p) ps,
            stdout := stdout ?w3 @ map name ps\<rparr> =
        w\<lparr>db := d1, calls := calls w @ applied_calls tbl v (p # ps),
          stdout := stdout w @ map name (p # ps)\<rparr>"
    by (rule world.equality) simp_all
  then show ?case unfolding step Cons.IH [OF r4] last_version_Cons by simp
qed

lemma run_rest_script_fails:
  assumes "exec_stmt q (setStateSQL tbl \<lparr>state.version = v, dirty = True\<rparr>) (db w) = (None, d2)"
    and "exec_stmt q (query m) d2 = (Some e, d3)"
  shows "run_rest q True tbl \<lparr>state.version = v, dirty = False\<rparr> (m # post) w =
     (Some (ExecError (name m) e),
      w\<lparr>db := d3,
        calls := calls w @
          [Call_Exec (setStateSQL tbl \<lparr>state.version = v, dirty = True\<rparr>) None,
           Call_Exec (query m) (Some e)],
        stdout := stdout w @ [name m]\<rparr>)"
  using assms by (simp add: Let_def setState_def ExecContext_def)

text \<open>The scripts executed without error among the calls of the second loop.\<close>

lemma scripts_done_append:
  "scripts_done tbl (xs @ ys) = scripts_done tbl xs @ scripts_done tbl ys"
  by (induction tbl xs rule: scripts_done.induct) simp_all

lemma is_state_write_setStateSQL: "is_state_write tbl (setStateSQL tbl s)"
  by (simp add: is_state_write_def setStateSQL_def HasPrefix_def)

lemma scripts_done_bracket:
  "\<not> is_state_write tbl (query m) \<Longrightarrow> scripts_done tbl (bracket tbl v m) = [query m]"
  by (simp add: bracket_def is_state_write_setStateSQL)

lemma scripts_done_applied_calls:
  "list_all (\<lambda>m. \<not> is_state_write tbl (query m)) ms \<Longrightarrow>
     scripts_done tbl (applied_calls tbl v ms) = map query ms"
  by (induction ms arbitrary: v) (simp_all add: scripts_done_append scripts_done_bracket)

lemma call_ok_applied_calls: "list_all call_ok (applied_calls tbl v ms)"
  by (induction ms arbitrary: v) (simp_all add: bracket_def)

lemma run_rest_scripts_done:
  assumes "list_all (\<lambda>m. \<not> is_state_write tbl (query m)) ms"
    and "run_rest q force tbl st ms w = (r, w')"
  shows "\<exists>c cs. c \<le> length ms \<and> calls w' = calls w @ cs \<and>
           list_all is_exec cs \<and>
           scripts_done tbl cs = map query (take c ms) \<and>
           (\<not> force \<longrightarrow> c = 0) \<and> (force \<and> r = None \<longrightarrow> c = length ms)"
proof (cases force)
  case False
  then have "w' = w\<lparr>stdout := stdout w @ map name ms\<rparr>"
    using assms(2) by (simp add: run_rest_dry)
  then have "0 \<le> length ms \<and> calls w' = calls w @ [] \<and> list_all is_exec [] \<and>
      scripts_done tbl [] = map query (take 0 ms) \<and>
      (\<not> force \<longrightarrow> (0::nat) = 0) \<and> (force \<and> r = None \<longrightarrow> 0 = length ms)"
    using False by simp
  then show ?thesis by blast
next
  case True
  have "run_rest q True tbl st ms w = (r, w') \<Longrightarrow>
      list_all (\<lambda>m. \<not> is_state_write tbl (query m)) ms \<Longrightarrow>
      \<exists>c cs. c \<le> length ms \<and> calls w' = calls w @ cs \<and> list_all is_exec cs \<and>
        scripts_done tbl cs = map query (take c ms) \<and> (r = None \<longrightarrow> c = length ms)"
  proof (induction ms arbitrary: st w)
    case Nil
    then have "(0::nat) \<le> length ([]::migration list) \<and> calls w' = calls w @ [] \<and>
        list_all is_exec [] \<and>
        scripts_done tbl [] = map query (take 0 ([]::migration list)) \<and>
        (r = None \<longrightarrow> 0 = length ([]::migration list))"
      by simp
    then show ?case by blast
  next
    case (Cons m ms)
    let ?w0 = "w\<lparr>stdout := stdout w @ [name m]\<rparr>"
    let ?s1 = "st\<lparr>dirty := True\<rparr>"
    let ?s2 = "\<lparr>state.version = migration.version m, dirty = False\<rparr>"
    let ?d = "Call_Exec (setStateSQL tbl ?s1)"
    let ?s = "Call_Exec (query m)"
    let ?c = "Call_Exec (setStateSQL tbl ?s2)"
    have nm: "\<not> is_state_write tbl (query m)"
      and nms: "list_all (\<lambda>m. \<not> is_state_write tbl (query m)) ms"
      using Cons.prems(2) by simp_all
    note sw = is_state_write_setStateSQL
    have fin: "r \<noteq> None \<Longrightarrow> calls w' = calls w @ cs \<Longrightarrow> list_all is_exec cs \<Longrightarrow>
        scripts_done tbl cs = map query (take c (m # ms)) \<Longrightarrow> c \<le> length (m # ms) \<Longrightarrow> ?case"
      for c cs
    proof -
      assume a: "r \<noteq> None" "calls w' = calls w @ cs" "list_all is_exec cs"
        "scripts_done tbl cs = map query (take c (m # ms))" "c \<le> length (m # ms)"
      have 5: "r = None \<longrightarrow> c = length (m # ms)" by (simp add: a(1))
      show ?case
        by (rule exI [of _ c], rule exI [of _ cs]) (intro conjI a(5) a(2) a(3) a(4) 5)
    qed
    from run_rest_force_unfold [OF Cons.prems(1)]
    consider
      (a) err where "r = Some err" "setState q tbl ?s1 ?w0 = (Some err, w')"
    | (b) w1 e where "setState q tbl ?s1 ?w0 = (None, w1)" "r = Some (ExecError (name m) e)"
          "ExecContext q (query m) w1 = (Some e, w')"
    | (c) w1 w2 err where "setState q tbl ?s1 ?w0 = (None, w1)"
          "ExecContext q (query m) w1 = (None, w2)" "r = Some err"
          "setState q tbl ?s2 w2 = (Some err, w')"
    | (d) w1 w2 w3 where "setState q tbl ?s1 ?w0 = (None, w1)"
          "ExecContext q (query m) w1 = (None, w2)"
          "setState q tbl ?s2 w2 = (None, w3)"
          "run_rest q True tbl ?s2 ms w3 = (r, w')"
      by auto
    then show ?case
    proof cases
      case a
      from setState_Some [OF a(2)] obtain e where
        cw: "calls w' = calls w @ [?d (Some e)]" by auto
      show ?thesis
        by (rule fin [OF _ cw, of 0]) (simp_all add: a(1))
    next
      case b
      from setState_None [OF b(1)] ExecContext_result [OF b(3)]
      have cw: "calls w' = calls w @ [?d None, ?s (Some e)]" by simp
      show ?thesis
        by (rule fin [OF _ cw, of 0]) (simp_all add: b(2) sw)
    next
      case c
      from setState_Some [OF c(4)] obtain e where
        e: "calls w' = calls w2 @ [?c (Some e)]" by auto
      from setState_None [OF c(1)] ExecContext_result [OF c(2)] e
      have cw: "calls w' = calls w @ [?d None, ?s None, ?c (Some e)]" by simp
      show ?thesis
        by (rule fin [OF _ cw, of 1]) (simp_all add: c(3) sw nm)
    next
      case d
      have s1: "?s1 = \<lparr>state.version = state.version st, dirty = True\<rparr>" by simp
      from setState_None [OF d(1)] ExecContext_result [OF d(2)] setState_None [OF d(3)]
      have c3: "calls w3 = calls w @ bracket tbl (state.version st) m"
        unfolding s1 by (simp add: bracket_def)
      from Cons.IH [OF d(4) nms] obtain k where "\<exists>cs. k \<le> length ms \<and>
          calls w' = calls w3 @ cs \<and> list_all is_exec cs \<and>
          scripts_done tbl cs = map query (take k ms) \<and> (r = None \<longrightarrow> k = length ms)" ..
      then obtain cs where ih: "k \<le> length ms \<and>
          calls w' = calls w3 @ cs \<and> list_all is_exec cs \<and>
          scripts_done tbl cs = map query (take k ms) \<and> (r = None \<longrightarrow> k = length ms)" ..
      let ?cs = "bracket tbl (state.version st) m @ cs"
      have 1: "Suc k \<le> length (m # ms)" using ih by simp
      have 2: "calls w' = calls w @ ?cs" using ih c3 by simp
      have 3: "list_all is_exec ?cs" using ih by (simp add: bracket_def)
      have 4: "scripts_done tbl ?cs = map query (take (Suc k) (m # ms))"
        using ih by (simp add: scripts_done_append scripts_done_bracket [OF nm])
      have 5: "r = None \<longrightarrow> Suc k = length (m # ms)" using ih by simp
      show ?thesis
        by (rule exI [of _ "Suc k"], rule exI [of _ ?cs]) (intro conjI 1 2 3 4 5)
    qed
  qed
  from this [OF assms(2) [unfolded eqTrueI [OF True]] assms(1)] obtain c where
    "\<exists>cs. c \<le> length ms \<and> calls w' = calls w @ cs \<and> list_all is_exec cs \<and>
        scripts_done tbl cs = map query (take c ms) \<and> (r = None \<longrightarrow> c = length ms)" ..
  then obtain cs where x: "c \<le> length ms \<and> calls w' = calls w @ cs \<and> list_all is_exec cs \<and>
        scripts_done tbl cs = map query (take c ms) \<and> (r = None \<longrightarrow> c = length ms)" ..
  have "c \<le> length ms \<and> calls w' = calls w @ cs \<and> list_all is_exec cs \<and>
        scripts_done tbl cs = map query (take c ms) \<and>
        (\<not> force \<longrightarrow> c = 0) \<and> (force \<and> r = None \<longrightarrow> c = length ms)"
    using x True by simp
  then show ?thesis by blast
qed

subsection \<open>The function literal and withTx\<close>

lemma getState_eq:
  "getState q tbl w =
     (case persisted q tbl (db w) of
        Inl e \<Rightarrow> Inl (ReadStateError e)
      | Inr (v, d) \<Rightarrow> Inr \<lparr>state.version = v, dirty = d\<rparr>,
      w\<lparr>calls := calls w @ [Call_QueryRow (stateSQL tbl) (persisted q tbl (db w))]\<rparr>)"
  by (simp add: getState_def QueryRowContext_def persisted_def split: sum.splits prod.splits)

lemma migrate_func_dirty:
  "persisted q tbl (db w) = Inr (V, True) \<Longrightarrow>
     migrate_func force tbl ms q w =
       (Some StateDirty,
        w\<lparr>calls := calls w @ [Call_QueryRow (stateSQL tbl) (Inr (V, True))]\<rparr>)"
  by (simp add: migrate_func_def getState_eq)

lemma migrate_func_clean:
  "persisted q tbl (db w) = Inr (V, False) \<Longrightarrow>
     sorted_wrt (<) (map migration.version ms) \<Longrightarrow>
     migrate_func force tbl ms q w =
       run_rest q force tbl \<lparr>state.version = V, dirty = False\<rparr> (pending V ms)
         (w\<lparr>calls := calls w @ [Call_QueryRow (stateSQL tbl) (Inr (V, False))]\<rparr>)"
  by (simp add: migrate_func_def getState_eq advance_pending)

lemma migrate_func_statements:
  assumes "\<forall>stmt d. origin (snd (exec_stmt q stmt d)) = origin d"
    and "migrate_func force tbl ms q w = (r, w')"
  shows "(\<exists>body. calls w' = calls w @ body \<and> list_all is_statement body) \<and>
         origin (db w') = origin (db w)"
proof (cases "persisted q tbl (db w)")
  case (Inl e)
  then show ?thesis using assms(2) by (auto simp: migrate_func_def getState_eq)
next
  case (Inr vd)
  obtain v d where vd: "vd = (v, d)" by (cases vd)
  let ?w1 = "w\<lparr>calls := calls w @ [Call_QueryRow (stateSQL tbl) (Inr (v, d))]\<rparr>"
  show ?thesis
  proof (cases d)
    case True
    then show ?thesis using assms(2) Inr vd by (auto simp: migrate_func_def getState_eq)
  next
    case False
    then have "run_rest q force tbl \<lparr>state.version = v, dirty = False\<rparr>
        (advance \<lparr>state.version = v, dirty = False\<rparr> ms) ?w1 = (r, w')"
      using assms(2) Inr vd by (simp add: migrate_func_def getState_eq)
    from run_rest_statements [OF assms(1) this] show ?thesis by auto
  qed
qed

lemma withTx_True:
  "withTx q True f w =
     (case begin_tx q (db w) of
        Inl e \<Rightarrow> (Some (BeginTxError e), w\<lparr>calls := calls w @ [Call_BeginTx (Some e)]\<rparr>)
      | Inr d1 \<Rightarrow>
          (case f (w\<lparr>db := d1, calls := calls w @ [Call_BeginTx None]\<rparr>) of
             (Some err, w2) \<Rightarrow>
               (case rollback_tx q (db w2) of
                  (Some e, d3) \<Rightarrow>
                    (Some (RollbackTxError e),
                     w2\<lparr>db := d3, calls := calls w2 @ [Call_Rollback (Some e)]\<rparr>)
                | (None, d3) \<Rightarrow>
                    (Some err, w2\<lparr>db := d3, calls := calls w2 @ [Call_Rollback None]\<rparr>))
           | (None, w2) \<Rightarrow>
               (case commit_tx q (db w2) of
                  (Some e, d3) \<Rightarrow>
                    (Some (CommitTxError e),
                     w2\<lparr>db := d3, calls := calls w2 @ [Call_Commit (Some e)]\<rparr>)
                | (None, d3) \<Rightarrow>
                    (None, w2\<lparr>db := d3, calls := calls w2 @ [Call_Commit None]\<rparr>))))"
  by (simp add: withTx_def BeginTx_def Rollback_def Commit_def
      split: sum.splits prod.splits option.splits)

lemma withTx_False: "withTx q False f w = f w"
  by (simp add: withTx_def)

lemma list_all_pending:
  "list_all P ms \<Longrightarrow> list_all P (pending V ms)"
  by (simp add: pending_def list_all_iff)


subsection \<open>The database in memory honours what is taken for granted\<close>

lemma dec_value_snoc: "dec_value (ds @ [c]) = 10 * dec_value ds + digit_val c"
  by (simp add: dec_value_def)

lemma digit_char_props:
  assumes "n < 10"
  shows "isDigit (digit_char n) \<and> digit_val (digit_char n) = int n"
proof -
  from assms have "n \<in> {0, 1, 2, 3, 4, 5, 6, 7, 8, 9}" by auto
  then show ?thesis by (auto simp: isDigit_def digit_char_def digit_val_def)
qed

lemma digit_val_digit_char: "n < 10 \<Longrightarrow> digit_val (digit_char n) = int n"
  using digit_char_props by simp

lemma isDigit_digit_char: "n < 10 \<Longrightarrow> isDigit (digit_char n)"
  using digit_char_props by simp

lemma digits_of_props:
  "digits_of n \<noteq> [] \<and> list_all isDigit (digits_of n) \<and> dec_value (digits_of n) = int n"
proof (induction n rule: digits_of.induct)
  case (1 n)
  show ?case
  proof (cases "n < 10")
    case True
    then show ?thesis
      using digits_of.simps [of n] isDigit_digit_char [of n] digit_val_digit_char [of n]
      by (simp add: dec_value_def)
  next
    case False
    have m: "n mod 10 < 10" by simp
    have ar: "10 * int (n div 10) + int (n mod 10) = int n" by presburger
    from 1 [OF False] False show ?thesis
      using digits_of.simps [of n] isDigit_digit_char [OF m] digit_val_digit_char [OF m] ar
      by (simp add: dec_value_snoc)
  qed
qed

lemma Atoi_format_int:
  "Atoi (format_int v) = (if - (2 ^ 63) \<le> v \<and> v \<le> 2 ^ 63 - 1 then Some v else None)"
proof (cases "v < 0")
  case False
  then show ?thesis
    using digits_of_props [of "nat v"] by (simp add: format_int_def Atoi_digits)
next
  case True
  have "CHR ''-'' \<noteq> CHR ''+''" by simp
  then show ?thesis
    using True digits_of_props [of "nat (- v)"] by (simp add: format_int_def Atoi_def Let_def)
qed

lemma no_comma_format_int: "\<forall>c \<in> set (format_int v). c \<noteq> CHR '',''"
proof -
  have "\<And>c. isDigit c \<Longrightarrow> c \<noteq> CHR '',''" by (auto simp: isDigit_def)
  then show ?thesis
    using digits_of_props [of "nat v"] digits_of_props [of "nat (- v)"]
    by (auto simp: format_int_def list_all_iff)
qed

lemma parse_setState_setStateSQL:
  "parse_setState tbl (setStateSQL tbl s) =
     (if - (2 ^ 63) \<le> state.version s \<and> state.version s \<le> 2 ^ 63 - 1
      then Some (state.version s, dirty s) else None)"
proof -
  let ?p = "''update '' @ tbl @ '' set version = ''"
  let ?r = "format_int (state.version s) @ CHR '','' # '' dirty = '' @ format_bool (dirty s)"
  have e: "setStateSQL tbl s = ?p @ ?r" by (simp add: setStateSQL_def)
  have d: "drop (length ?p) (setStateSQL tbl s) = ?r" unfolding e by (rule append_eq_conv_conj [THEN iffD1, THEN conjunct2, symmetric]) simp
  have t: "takeWhile (\<lambda>c. c \<noteq> CHR '','') ?r = format_int (state.version s)"
    using no_comma_format_int by (simp add: takeWhile_tail)
  have w: "dropWhile (\<lambda>c. c \<noteq> CHR '','') ?r = CHR '','' # '' dirty = '' @ format_bool (dirty s)"
    using no_comma_format_int by (simp add: dropWhile_append3)
  show ?thesis
    unfolding parse_setState_def Let_def d t w Atoi_format_int
    by (simp add: format_bool_def)
qed

lemma HasPrefix_setStateSQL:
  "HasPrefix (setStateSQL tbl s) (''update '' @ tbl @ '' set version = '')"
  by (simp add: HasPrefix_def setStateSQL_def)

lemma memdb_exec_setStateSQL:
  "memdb_exec tbl bad (setStateSQL tbl s) d =
     (if - (2 ^ 63) \<le> state.version s \<and> state.version s \<le> 2 ^ 63 - 1
      then (case row d of
              None \<Rightarrow> (Some ''no such table'', d)
            | Some old \<Rightarrow> (None, d\<lparr>row := Some (state.version s, dirty s)\<rparr>))
      else (Some ''syntax error'', d))"
proof -
  have h: "HasPrefix (setStateSQL tbl s) (''update '' @ tbl @ '' set version = '') = True"
    using HasPrefix_setStateSQL by simp
  show ?thesis
    unfolding memdb_exec_def h parse_setState_setStateSQL by (simp split: option.splits)
qed

lemma memdb_write_then_read: "write_then_read (memdb_driver tbl bad) tbl"
proof -
  have "memdb_exec tbl bad (setStateSQL tbl s) d = (None, d') \<Longrightarrow>
          memdb_query tbl (stateSQL tbl) d' = Inr (state.version s, dirty s)" for s d d'
    unfolding memdb_exec_setStateSQL
    by (auto simp: memdb_query_def split: if_splits option.splits)
  then show ?thesis
    unfolding write_then_read_def persisted_def by (simp add: memdb_driver_def)
qed

lemma memdb_begin_keeps_state: "begin_keeps_state (memdb_driver tbl bad) tbl"
  unfolding begin_keeps_state_def persisted_def
  by (auto simp: memdb_driver_def memdb_begin_def memdb_query_def split: option.splits)

lemma memdb_commit_keeps_state: "commit_keeps_state (memdb_driver tbl bad) tbl"
  unfolding commit_keeps_state_def persisted_def
  by (auto simp: memdb_driver_def memdb_commit_def memdb_query_def split: option.splits)

lemma memdb_script_keeps_state:
  assumes "\<not> HasPrefix stmt (''update '' @ tbl @ '' set version = '')"
  shows "script_keeps_state (memdb_driver tbl bad) tbl stmt"
proof -
  have "row (snd (memdb_exec tbl bad stmt d)) = row d" for d
    unfolding memdb_exec_def using assms by (simp only: if_False) simp
  then show ?thesis
    unfolding script_keeps_state_def persisted_def
    by (simp add: memdb_driver_def memdb_query_def)
qed

lemma memdb_exec_snapshot: "snapshot (snd (memdb_exec tbl bad stmt d)) = snapshot d"
  unfolding memdb_exec_def by (simp split: option.splits)

lemma memdb_rollback_restores: "rollback_restores (memdb_driver tbl bad) memdb_origin"
  unfolding rollback_restores_def
  by (auto simp: memdb_driver_def memdb_begin_def memdb_rollback_def memdb_origin_def
      memdb_exec_snapshot split: option.splits)


subsection \<open>Runs of the function literal that return no error, and the scripts of a run\<close>

lemma migrate_func_None:
  assumes "sorted_wrt (<) (map migration.version ms)"
    and "migrate_func force tbl ms q w = (None, w')"
  shows "\<exists>V. persisted q tbl (db w) = Inr (V, False) \<and>
           calls w' = calls w @ Call_QueryRow (stateSQL tbl) (Inr (V, False)) #
             (if force then applied_calls tbl V (pending V ms) else [])"
proof (cases "persisted q tbl (db w)")
  case (Inl e)
  then show ?thesis using assms(2) by (simp add: migrate_func_def getState_eq)
next
  case (Inr vd)
  obtain V d where vd: "vd = (V, d)" by (cases vd)
  have "\<not> d" using assms(2) Inr vd by (auto simp: migrate_func_def getState_eq split: if_splits)
  then have p: "persisted q tbl (db w) = Inr (V, False)" using Inr vd by simp
  let ?w1 = "w\<lparr>calls := calls w @ [Call_QueryRow (stateSQL tbl) (Inr (V, False))]\<rparr>"
  let ?st = "\<lparr>state.version = V, dirty = False\<rparr>"
  have run: "run_rest q force tbl ?st (pending V ms) ?w1 = (None, w')"
    using migrate_func_clean [OF p assms(1)] assms(2) by simp
  have "calls w' = calls w @ Call_QueryRow (stateSQL tbl) (Inr (V, False)) #
             (if force then applied_calls tbl V (pending V ms) else [])"
  proof (cases force)
    case True
    then have "run_rest q True tbl ?st (pending V ms) ?w1 = (None, w')" using run by simp
    from run_rest_success [OF this] show ?thesis using True by simp
  next
    case False
    then show ?thesis using run by (auto simp: run_rest_dry)
  qed
  with p show ?thesis by blast
qed

lemma migrate_func_scripts_done:
  assumes "sorted_wrt (<) (map migration.version ms)"
    and "list_all (\<lambda>m. \<not> is_state_write tbl (query m)) ms"
    and "persisted q tbl (db w) = Inr (V, False)"
    and "migrate_func force tbl ms q w = (fr, w2)"
  shows "\<exists>c cs. c \<le> length (pending V ms) \<and> calls w2 = calls w @ cs \<and>
           scripts_done tbl cs = map query (take c (pending V ms)) \<and>
           (\<not> force \<longrightarrow> c = 0) \<and> (force \<and> fr = None \<longrightarrow> c = length (pending V ms))"
proof -
  let ?r = "Call_QueryRow (stateSQL tbl) (Inr (V, False))"
  let ?w1 = "w\<lparr>calls := calls w @ [?r]\<rparr>"
  let ?st = "\<lparr>state.version = V, dirty = False\<rparr>"
  have run: "run_rest q force tbl ?st (pending V ms) ?w1 = (fr, w2)"
    using migrate_func_clean [OF assms(3,1)] assms(4) by simp
  from run_rest_scripts_done [OF list_all_pending [OF assms(2)] run] obtain c where
    "\<exists>cs. c \<le> length (pending V ms) \<and> calls w2 = calls ?w1 @ cs \<and>
       list_all is_exec cs \<and>
       scripts_done tbl cs = map query (take c (pending V ms)) \<and>
       (\<not> force \<longrightarrow> c = 0) \<and> (force \<and> fr = None \<longrightarrow> c = length (pending V ms))" ..
  then obtain cs where x: "c \<le> length (pending V ms) \<and> calls w2 = calls ?w1 @ cs \<and>
       list_all is_exec cs \<and>
       scripts_done tbl cs = map query (take c (pending V ms)) \<and>
       (\<not> force \<longrightarrow> c = 0) \<and> (force \<and> fr = None \<longrightarrow> c = length (pending V ms))" ..
  have 1: "c \<le> length (pending V ms)" using x by simp
  have 2: "calls w2 = calls w @ (?r # cs)" using x by simp
  have 3: "scripts_done tbl (?r # cs) = map query (take c (pending V ms))" using x by simp
  have 4: "\<not> force \<longrightarrow> c = 0" using x by simp
  have 5: "force \<and> fr = None \<longrightarrow> c = length (pending V ms)" using x by simp
  show ?thesis
    by (rule exI [of _ c], rule exI [of _ "?r # cs"]) (intro conjI 1 2 3 4 5)
qed

lemma migrate_func_not_clean:
  assumes "\<forall>V. persisted q tbl (db w) \<noteq> Inr (V, False)"
    and "migrate_func force tbl ms q w = (fr, w2)"
  shows "fr \<noteq> None \<and>
         calls w2 = calls w @ [Call_QueryRow (stateSQL tbl) (persisted q tbl (db w))]"
proof (cases "persisted q tbl (db w)")
  case (Inl e)
  then show ?thesis using assms(2) by (auto simp: migrate_func_def getState_eq)
next
  case (Inr vd)
  obtain V d where vd: "vd = (V, d)" by (cases vd)
  have d using assms(1) Inr vd by (cases d) auto
  then have "persisted q tbl (db w) = Inr (V, True)" using Inr vd by simp
  from migrate_func_dirty [OF this, of force ms] assms(2) this show ?thesis by auto
qed

lemma withTx_closing:
  assumes "withTx q True f w = (res, w')"
    and "begin_tx q (db w) = Inr d1"
    and "f (w\<lparr>db := d1, calls := calls w @ [Call_BeginTx None]\<rparr>) = (fr, w2)"
  shows "calls w' = calls w2 @
           [if fr = None then Call_Commit (fst (commit_tx q (db w2)))
            else Call_Rollback (fst (rollback_tx q (db w2)))] \<and>
         stdout w' = stdout w2 \<and>
         (fr = None \<longrightarrow> res = map_option CommitTxError (fst (commit_tx q (db w2))) \<and>
            db w' = snd (commit_tx q (db w2))) \<and>
         (fr \<noteq> None \<longrightarrow> db w' = snd (rollback_tx q (db w2)) \<and>
            res = (case fst (rollback_tx q (db w2)) of
                     None \<Rightarrow> fr | Some e \<Rightarrow> Some (RollbackTxError e)))"
  using assms by (auto simp: withTx_True split: prod.splits option.splits)

subsection \<open>The concrete inputs\<close>

lemma sorted_three: "sorted_wrt (<) (map migration.version three_migrations)"
  by code_simp

lemma three_scripts_keep_state:
  "list_all (\<lambda>m. script_keeps_state (memdb_driver ''sqlcc'' bad) ''sqlcc'' (query m))
     three_migrations"
proof -
  have "\<not> HasPrefix ''create table a'' (''update '' @ ''sqlcc'' @ '' set version = '')"
    "\<not> HasPrefix ''create table b'' (''update '' @ ''sqlcc'' @ '' set version = '')"
    "\<not> HasPrefix ''create table c'' (''update '' @ ''sqlcc'' @ '' set version = '')"
    by code_simp+
  then show ?thesis
    unfolding three_migrations_def by (simp add: memdb_script_keeps_state del: append.simps)
qed

lemma three_scripts_no_state_write:
  "list_all (\<lambda>m. \<not> is_state_write ''sqlcc'' (query m)) three_migrations"
  by code_simp

section \<open>The claims on migrate\<close>



text \<open>
  C2. When the persisted state is dirty, \<^verbatim>\<open>migrate\<close> fails, in dry-run mode and in force
  mode alike, and for every list of migrations. The function literal reads the state,
  returns the error "state is dirty, will not migrate" and does nothing else: no call of
  \<^verbatim>\<open>ExecContext\<close> (no script, no write of the state), nothing printed, the database
  as it was. So does \<^verbatim>\<open>migrate\<close> without a transaction. In a transaction the same holds
  between \<^verbatim>\<open>BeginTx\<close> and \<^verbatim>\<open>Rollback\<close>; only when one of these two fails is their
  error returned instead, and when the dirty-state error is returned the database is
  the one before the call.
\<close>

theorem migrate_refuses_dirty_state:
  assumes "persisted q tbl (db w) = Inr (V, True)"
    and "begin_keeps_state q tbl"
    and "rollback_restores q origin"
    and "migrate q inTx force tbl ms w = (res, w')"
  shows "migrate_func force tbl ms q w =
           (Some StateDirty,
            w\<lparr>calls := calls w @ [Call_QueryRow (stateSQL tbl) (Inr (V, True))]\<rparr>) \<and>
         (\<not> inTx \<longrightarrow> res = Some StateDirty \<and>
            w' = w\<lparr>calls := calls w @ [Call_QueryRow (stateSQL tbl) (Inr (V, True))]\<rparr>) \<and>
         (res = Some StateDirty \<or> (\<exists>e. res = Some (BeginTxError e)) \<or>
            (\<exists>e. res = Some (RollbackTxError e))) \<and>
         list_all (\<lambda>c. \<not> is_exec c) (drop (length (calls w)) (calls w')) \<and>
         stdout w' = stdout w \<and>
         (res = Some StateDirty \<longrightarrow> db w' = db w) \<and>
         (inTx \<longrightarrow> (\<forall>d1. begin_tx q (db w) = Inr d1 \<longrightarrow>
            calls w' = calls w @
              [Call_BeginTx None, Call_QueryRow (stateSQL tbl) (Inr (V, True)),
               Call_Rollback (fst (rollback_tx q d1))] \<and>
            (fst (rollback_tx q d1) = None \<longrightarrow> res = Some StateDirty)))"
proof -
  let ?f = "migrate_func force tbl ms q"
  let ?r = "Call_QueryRow (stateSQL tbl) (Inr (V, True))"
  have f: "?f u = (Some StateDirty, u\<lparr>calls := calls u @ [?r]\<rparr>)"
    if "persisted q tbl (db u) = Inr (V, True)" for u
    using that by (rule migrate_func_dirty)
  show ?thesis
  proof (cases inTx)
    case False
    then have "?f w = (res, w')" using assms(4) by (simp add: migrate_def withTx_False)
    then show ?thesis using f [OF assms(1)] False by auto
  next
    case True
    then have run: "withTx q True ?f w = (res, w')" using assms(4) by (simp add: migrate_def)
    show ?thesis
    proof (cases "begin_tx q (db w)")
      case (Inl e)
      then have "res = Some (BeginTxError e)"
        "w' = w\<lparr>calls := calls w @ [Call_BeginTx (Some e)]\<rparr>"
        using run unfolding withTx_True by auto
      then show ?thesis using f [OF assms(1)] True Inl by simp
    next
      case (Inr d1)
      let ?w1 = "w\<lparr>db := d1, calls := calls w @ [Call_BeginTx None]\<rparr>"
      have p1: "persisted q tbl (db ?w1) = Inr (V, True)"
        using assms(1,2) Inr unfolding begin_keeps_state_def by simp
      have o1: "origin d1 = db w" using assms(3) Inr unfolding rollback_restores_def by blast
      obtain rr d3 where rb: "rollback_tx q d1 = (rr, d3)" by (cases "rollback_tx q d1")
      have w': "w' = w\<lparr>db := d3, calls := calls w @
            [Call_BeginTx None, ?r, Call_Rollback rr]\<rparr>"
        and res: "res = (case rr of None \<Rightarrow> Some StateDirty | Some e \<Rightarrow> Some (RollbackTxError e))"
        using run Inr rb by (auto simp: withTx_True f [OF p1] split: option.splits)
      have restored: "rr = None \<Longrightarrow> d3 = db w"
        using assms(3) rb o1 unfolding rollback_restores_def by metis
      show ?thesis using f [OF assms(1)] True w' res restored Inr rb
        by (auto split: option.splits)
    qed
  qed
qed

theorem migrate_refuses_dirty_state_witness:
  "migrate (memdb_driver ''sqlcc'' []) True True ''sqlcc'' three_migrations (world_at 1 True) =
     (Some StateDirty,
      \<lparr>db = \<lparr>row = Some (1, True), applied = [], snapshot = None\<rparr>,
       calls = [Call_BeginTx None,
                Call_QueryRow ''select version, dirty from sqlcc limit 1'' (Inr (1, True)),
                Call_Rollback None],
       stdout = []\<rparr>) \<and>
   migrate_func True ''sqlcc'' three_migrations (memdb_driver ''sqlcc'' []) (world_at 1 True) =
     (Some StateDirty,
      world_at 1 True\<lparr>calls := calls (world_at 1 True) @
         [Call_QueryRow (stateSQL ''sqlcc'') (Inr (1, True))]\<rparr>)"
proof -
  have run: "migrate (memdb_driver ''sqlcc'' []) True True ''sqlcc'' three_migrations
      (world_at 1 True) =
     (Some StateDirty,
      \<lparr>db = \<lparr>row = Some (1, True), applied = [], snapshot = None\<rparr>,
       calls = [Call_BeginTx None,
                Call_QueryRow ''select version, dirty from sqlcc limit 1'' (Inr (1, True)),
                Call_Rollback None],
       stdout = []\<rparr>)"
    by code_simp
  have dirty: "persisted (memdb_driver ''sqlcc'' []) ''sqlcc'' (db (world_at 1 True)) =
      Inr (1, True)"
    by code_simp
  from migrate_refuses_dirty_state [OF dirty memdb_begin_keeps_state memdb_rollback_restores run] run
  show ?thesis by blast
qed

text \<open>
  C3. Without a transaction and in force mode, from a clean persisted state of version
  \<open>V\<close>: let the pending migrations be \<open>pre\<close>, then \<open>m\<close>, then \<open>post\<close>, on a database that
  answers the full brackets of \<open>pre\<close> and the write of the dirty state before \<open>m\<close> without
  error, and on which the script of \<open>m\<close> then fails with \<open>e\<close>. Then \<^verbatim>\<open>migrate\<close> returns
  the error of that script under the name of \<open>m\<close>, and the failed script is its last call:
  the calls are the read of the state, the brackets of \<open>pre\<close>, the write of the dirty
  state and the script of \<open>m\<close>, so that no migration of \<open>post\<close> is executed or printed and
  the clean state is not written. The persisted state is dirty at the version of the
  last migration of \<open>pre\<close>, or at \<open>V\<close> when \<open>m\<close> is the first pending migration.
\<close>

theorem migrate_stops_at_failed_script:
  assumes "write_then_read q tbl"
    and "list_all (\<lambda>m. script_keeps_state q tbl (query m)) ms"
    and "sorted_wrt (<) (map migration.version ms)"
    and "persisted q tbl (db w) = Inr (V, False)"
    and "pending V ms = pre @ m # post"
    and "after_calls q
           (applied_calls tbl V pre @
            [Call_Exec (setStateSQL tbl \<lparr>state.version = last_version V pre, dirty = True\<rparr>) None,
             Call_Exec (query m) (Some e)])
           (db w) = Some d"
  shows "migrate q False True tbl ms w =
           (Some (ExecError (name m) e),
            w\<lparr>db := d,
              calls := calls w @ [Call_QueryRow (stateSQL tbl) (Inr (V, False))] @
                applied_calls tbl V pre @
                [Call_Exec (setStateSQL tbl \<lparr>state.version = last_version V pre, dirty = True\<rparr>)
                   None,
                 Call_Exec (query m) (Some e)],
              stdout := stdout w @ map name (pre @ [m])\<rparr>) \<and>
         persisted q tbl d = Inr (last_version V pre, True)"
proof -
  let ?r = "Call_QueryRow (stateSQL tbl) (Inr (V, False))"
  let ?w1 = "w\<lparr>calls := calls w @ [?r]\<rparr>"
  let ?st = "\<lparr>state.version = V, dirty = False\<rparr>"
  let ?lv = "last_version V pre"
  let ?dw = "setStateSQL tbl \<lparr>state.version = ?lv, dirty = True\<rparr>"
  let ?tail = "[Call_Exec ?dw None, Call_Exec (query m) (Some e)]"
  from assms(6) obtain d1 where
    a1: "after_calls q (applied_calls tbl V pre) (db w) = Some d1" and
    a2: "after_calls q ?tail d1 = Some d"
    by (auto simp: after_calls_append split: option.splits)
  from a2 obtain d2 where e1: "exec_stmt q ?dw d1 = (None, d2)"
    and e2: "exec_stmt q (query m) d2 = (Some e, d)"
    by (auto split: prod.splits if_splits)
  have m: "migrate q False True tbl ms w = run_rest q True tbl ?st (pre @ m # post) ?w1"
    using migrate_func_clean [OF assms(4,3)] assms(5) by (simp add: migrate_def withTx_False)
  have a1': "after_calls q (applied_calls tbl V pre) (db ?w1) = Some d1" using a1 by simp
  let ?w2 = "?w1\<lparr>db := d1, calls := calls ?w1 @ applied_calls tbl V pre,
                   stdout := stdout ?w1 @ map name pre\<rparr>"
  have r1: "run_rest q True tbl ?st (pre @ m # post) ?w1 =
      run_rest q True tbl \<lparr>state.version = ?lv, dirty = False\<rparr> (m # post) ?w2"
    by (rule run_rest_after_calls [OF a1'])
  have e1': "exec_stmt q ?dw (db ?w2) = (None, d2)" using e1 by simp
  note r2 = run_rest_script_fails [OF e1' e2, of post]
  have weq: "?w2\<lparr>db := d, calls := calls ?w2 @ ?tail, stdout := stdout ?w2 @ [name m]\<rparr> =
      w\<lparr>db := d, calls := calls w @ [?r] @ applied_calls tbl V pre @ ?tail,
        stdout := stdout w @ map name (pre @ [m])\<rparr>"
    by (rule world.equality) simp_all
  have run: "migrate q False True tbl ms w =
      (Some (ExecError (name m) e),
       w\<lparr>db := d, calls := calls w @ [?r] @ applied_calls tbl V pre @ ?tail,
         stdout := stdout w @ map name (pre @ [m])\<rparr>)"
    unfolding m r1 r2 weq ..
  have r0: "run_rest q True tbl ?st pre ?w1 = (None, ?w2)"
    using run_rest_after_calls [OF a1', of "[]"] by simp
  have "list_all (\<lambda>m. script_keeps_state q tbl (query m)) (pending V ms)"
    by (rule list_all_pending [OF assms(2)])
  then have kpre: "list_all (\<lambda>m. script_keeps_state q tbl (query m)) pre"
    and km: "script_keeps_state q tbl (query m)"
    unfolding assms(5) by simp_all
  have p1: "persisted q tbl (db ?w1) = Inr (state.version ?st, False)"
    using assms(4) by simp
  from run_rest_success_state [OF assms(1) kpre p1 r0]
  have pd1: "persisted q tbl d1 = Inr (?lv, False)" by simp
  from assms(1) [unfolded write_then_read_def, rule_format, OF pd1 e1]
  have pd2: "persisted q tbl d2 = Inr (?lv, True)" by simp
  have "d = snd (exec_stmt q (query m) d2)" using e2 by simp
  then have "persisted q tbl d = persisted q tbl d2"
    using km unfolding script_keeps_state_def by simp
  with pd2 have pd: "persisted q tbl d = Inr (?lv, True)" by simp
  from run pd show ?thesis by (rule conjI)
qed

theorem migrate_stops_at_failed_script_witness:
  "migrate (memdb_driver ''sqlcc'' [''create table b'']) False True ''sqlcc'' three_migrations
     (world_at 0 False) =
     (Some (ExecError ''003_b.sql'' ''syntax error''),
      \<lparr>db = \<lparr>row = Some (1, True),
             applied = [''create table a'', ''part of create table b''], snapshot = None\<rparr>,
       calls = [Call_QueryRow ''select version, dirty from sqlcc limit 1'' (Inr (0, False)),
                Call_Exec ''update sqlcc set version = 0, dirty = true'' None,
                Call_Exec ''create table a'' None,
                Call_Exec ''update sqlcc set version = 1, dirty = false'' None,
                Call_Exec ''update sqlcc set version = 1, dirty = true'' None,
                Call_Exec ''create table b'' (Some ''syntax error'')],
       stdout = [''001_a.sql'', ''003_b.sql'']\<rparr>) \<and>
   persisted (memdb_driver ''sqlcc'' [''create table b'']) ''sqlcc''
     \<lparr>row = Some (1, True),
      applied = [''create table a'', ''part of create table b''], snapshot = None\<rparr> =
   Inr (1, True) \<and>
   pending 0 three_migrations =
     [\<lparr>migration.version = 1, name = ''001_a.sql'', query = ''create table a''\<rparr>] @
     \<lparr>migration.version = 3, name = ''003_b.sql'', query = ''create table b''\<rparr> #
     [\<lparr>migration.version = 7, name = ''7_c.sql'', query = ''create table c''\<rparr>]"
proof -
  let ?q = "memdb_driver ''sqlcc'' [''create table b'']"
  let ?a = "\<lparr>migration.version = 1, name = ''001_a.sql'', query = ''create table a''\<rparr>"
  let ?b = "\<lparr>migration.version = 3, name = ''003_b.sql'', query = ''create table b''\<rparr>"
  let ?c = "\<lparr>migration.version = 7, name = ''7_c.sql'', query = ''create table c''\<rparr>"
  let ?d = "\<lparr>row = Some (1, True),
      applied = [''create table a'', ''part of create table b''], snapshot = None\<rparr>"
  have clean: "persisted ?q ''sqlcc'' (db (world_at 0 False)) = Inr (0, False)"
    by code_simp
  have split: "pending 0 three_migrations = [?a] @ ?b # [?c]"
    by code_simp
  have fails: "after_calls ?q
      (applied_calls ''sqlcc'' 0 [?a] @
       [Call_Exec (setStateSQL ''sqlcc'' \<lparr>state.version = last_version 0 [?a], dirty = True\<rparr>)
          None,
        Call_Exec (query ?b) (Some ''syntax error'')])
      (db (world_at 0 False)) = Some ?d"
    by code_simp
  have w: "world_at 0 False\<lparr>db := ?d,
      calls := calls (world_at 0 False) @
        [Call_QueryRow (stateSQL ''sqlcc'') (Inr (0, False))] @
        applied_calls ''sqlcc'' 0 [?a] @
        [Call_Exec (setStateSQL ''sqlcc'' \<lparr>state.version = last_version 0 [?a], dirty = True\<rparr>)
           None,
         Call_Exec (query ?b) (Some ''syntax error'')],
      stdout := stdout (world_at 0 False) @ map name ([?a] @ [?b])\<rparr> =
     \<lparr>db = ?d,
       calls = [Call_QueryRow ''select version, dirty from sqlcc limit 1'' (Inr (0, False)),
                Call_Exec ''update sqlcc set version = 0, dirty = true'' None,
                Call_Exec ''create table a'' None,
                Call_Exec ''update sqlcc set version = 1, dirty = false'' None,
                Call_Exec ''update sqlcc set version = 1, dirty = true'' None,
                Call_Exec ''create table b'' (Some ''syntax error'')],
       stdout = [''001_a.sql'', ''003_b.sql'']\<rparr>"
    by code_simp
  have n: "name ?b = ''003_b.sql''" and l: "last_version 0 [?a] = 1"
    by code_simp+
  note t = migrate_stops_at_failed_script [OF memdb_write_then_read three_scripts_keep_state
      sorted_three clean split fails]
  from t [unfolded w] show ?thesis unfolding n l using split by simp
qed

text \<open>
  C4. In transactional mode \<^verbatim>\<open>migrate\<close> first calls \<^verbatim>\<open>BeginTx\<close>; when that fails nothing
  else is called. Otherwise the function literal runs on the open transaction: all its
  calls (the read of the state, the writes of the state and the scripts) come after
  \<^verbatim>\<open>BeginTx\<close> and before the one closing call. When any of these calls was answered
  with an error, the function literal returns an error. The closing call is \<^verbatim>\<open>Commit\<close>
  exactly when the function literal returned no error, and then the calls in the
  transaction are the read of a clean state and, in force mode, the full brackets of
  all pending migrations, each answered without error; \<^verbatim>\<open>migrate\<close> returns nil, or the
  error of \<^verbatim>\<open>Commit\<close> when \<^verbatim>\<open>Commit\<close> fails (no rollback is called then). Otherwise the
  closing call is \<^verbatim>\<open>Rollback\<close> and \<^verbatim>\<open>migrate\<close> returns an error: the one of the function
  literal, with the database (state table and effects of the migrations included) the
  one before the call, when the rollback succeeds, and the error of \<^verbatim>\<open>Rollback\<close> when it
  fails.
\<close>

theorem migrate_in_transaction:
  assumes "rollback_restores q origin"
    and "sorted_wrt (<) (map migration.version ms)"
    and "migrate q True force tbl ms w = (res, w')"
  shows "(\<forall>e. begin_tx q (db w) = Inl e \<longrightarrow>
            res = Some (BeginTxError e) \<and>
            w' = w\<lparr>calls := calls w @ [Call_BeginTx (Some e)]\<rparr>) \<and>
         (\<forall>d1. begin_tx q (db w) = Inr d1 \<longrightarrow>
            (\<exists>body fr w2 closing.
               migrate_func force tbl ms q
                 (w\<lparr>db := d1, calls := calls w @ [Call_BeginTx None]\<rparr>) = (fr, w2) \<and>
               calls w2 = calls w @ [Call_BeginTx None] @ body \<and>
               list_all is_statement body \<and>
               calls w' = calls w2 @ [closing] \<and>
               (\<not> list_all call_ok body \<longrightarrow> fr \<noteq> None) \<and>
               (fr = None \<longrightarrow>
                  closing = Call_Commit (fst (commit_tx q (db w2))) \<and>
                  res = map_option CommitTxError (fst (commit_tx q (db w2))) \<and>
                  (\<exists>V. body = Call_QueryRow (stateSQL tbl) (Inr (V, False)) #
                          (if force then applied_calls tbl V (pending V ms) else []))) \<and>
               (fr \<noteq> None \<longrightarrow>
                  closing = Call_Rollback (fst (rollback_tx q (db w2))) \<and>
                  res \<noteq> None \<and>
                  (fst (rollback_tx q (db w2)) = None \<longrightarrow> res = fr \<and> db w' = db w) \<and>
                  (\<forall>e. fst (rollback_tx q (db w2)) = Some e \<longrightarrow>
                     res = Some (RollbackTxError e)))))"
proof (intro conjI allI impI)
  fix e assume "begin_tx q (db w) = Inl e"
  then show "res = Some (BeginTxError e)"
    "w' = w\<lparr>calls := calls w @ [Call_BeginTx (Some e)]\<rparr>"
    using assms(3) by (simp_all add: migrate_def withTx_True)
next
  fix d1 assume b: "begin_tx q (db w) = Inr d1"
  let ?w1 = "w\<lparr>db := d1, calls := calls w @ [Call_BeginTx None]\<rparr>"
  let ?f = "migrate_func force tbl ms q"
  obtain fr w2 where f: "?f ?w1 = (fr, w2)" by (cases "?f ?w1")
  let ?cr = "fst (commit_tx q (db w2))"
  let ?rr = "fst (rollback_tx q (db w2))"
  let ?closing = "if fr = None then Call_Commit ?cr else Call_Rollback ?rr"
  have ex: "\<forall>stmt d. origin (snd (exec_stmt q stmt d)) = origin d"
    using assms(1) unfolding rollback_restores_def by blast
  from migrate_func_statements [OF ex f] obtain body where
    body: "calls w2 = calls ?w1 @ body" "list_all is_statement body"
    and o2: "origin (db w2) = origin (db ?w1)" by blast
  have o1: "origin d1 = db w" using assms(1) b unfolding rollback_restores_def by blast
  have run: "withTx q True ?f w = (res, w')" using assms(3) by (simp add: migrate_def)
  note cl = withTx_closing [OF run b f]
  have 1: "calls w2 = calls w @ [Call_BeginTx None] @ body" using body(1) by simp
  have 2: "calls w' = calls w2 @ [?closing]" using cl by simp
  have complete: "\<exists>V. body = Call_QueryRow (stateSQL tbl) (Inr (V, False)) #
      (if force then applied_calls tbl V (pending V ms) else [])" if n: "fr = None"
  proof -
    from migrate_func_None [OF assms(2) f [unfolded n]] obtain V where
      "calls w2 = calls ?w1 @ Call_QueryRow (stateSQL tbl) (Inr (V, False)) #
         (if force then applied_calls tbl V (pending V ms) else [])"
      by blast
    then have "body = Call_QueryRow (stateSQL tbl) (Inr (V, False)) #
         (if force then applied_calls tbl V (pending V ms) else [])"
      using body(1) by simp
    then show ?thesis ..
  qed
  have 3: "\<not> list_all call_ok body \<longrightarrow> fr \<noteq> None"
  proof (intro impI notI)
    assume bad: "\<not> list_all call_ok body" and n: "fr = None"
    from complete [OF n] obtain V where
      "body = Call_QueryRow (stateSQL tbl) (Inr (V, False)) #
         (if force then applied_calls tbl V (pending V ms) else [])" ..
    then have "list_all call_ok body" by (simp add: call_ok_applied_calls)
    with bad show False ..
  qed
  have 4: "fr = None \<longrightarrow>
      ?closing = Call_Commit ?cr \<and> res = map_option CommitTxError ?cr \<and>
      (\<exists>V. body = Call_QueryRow (stateSQL tbl) (Inr (V, False)) #
              (if force then applied_calls tbl V (pending V ms) else []))"
    using cl complete by simp
  have 5: "fr \<noteq> None \<longrightarrow>
      ?closing = Call_Rollback ?rr \<and> res \<noteq> None \<and>
      (?rr = None \<longrightarrow> res = fr \<and> db w' = db w) \<and>
      (\<forall>e. ?rr = Some e \<longrightarrow> res = Some (RollbackTxError e))"
  proof (intro impI conjI allI)
    assume n: "fr \<noteq> None"
    then show "?closing = Call_Rollback ?rr" by simp
    have res: "res = (case ?rr of None \<Rightarrow> fr | Some e \<Rightarrow> Some (RollbackTxError e))"
      and d': "db w' = snd (rollback_tx q (db w2))"
      using cl n by simp_all
    show "res \<noteq> None" using res n by (simp split: option.splits)
    {
      assume rr: "?rr = None"
      then show "res = fr" using res by simp
      have "rollback_tx q (db w2) = (None, db w')" using rr d' by (simp add: prod_eq_iff)
      then have "db w' = origin (db w2)"
        using assms(1) unfolding rollback_restores_def by blast
      then show "db w' = db w" using o2 o1 by simp
    }
    fix e assume "?rr = Some e"
    then show "res = Some (RollbackTxError e)" using res by simp
  qed
  show "\<exists>body fr w2 closing.
      ?f ?w1 = (fr, w2) \<and>
      calls w2 = calls w @ [Call_BeginTx None] @ body \<and>
      list_all is_statement body \<and>
      calls w' = calls w2 @ [closing] \<and>
      (\<not> list_all call_ok body \<longrightarrow> fr \<noteq> None) \<and>
      (fr = None \<longrightarrow>
         closing = Call_Commit (fst (commit_tx q (db w2))) \<and>
         res = map_option CommitTxError (fst (commit_tx q (db w2))) \<and>
         (\<exists>V. body = Call_QueryRow (stateSQL tbl) (Inr (V, False)) #
                 (if force then applied_calls tbl V (pending V ms) else []))) \<and>
      (fr \<noteq> None \<longrightarrow>
         closing = Call_Rollback (fst (rollback_tx q (db w2))) \<and>
         res \<noteq> None \<and>
         (fst (rollback_tx q (db w2)) = None \<longrightarrow> res = fr \<and> db w' = db w) \<and>
         (\<forall>e. fst (rollback_tx q (db w2)) = Some e \<longrightarrow>
            res = Some (RollbackTxError e)))"
    by (rule exI [of _ body], rule exI [of _ fr], rule exI [of _ w2],
        rule exI [of _ ?closing])
       (intro conjI f 1 body(2) 2 3 4 5)
qed

theorem migrate_in_transaction_witness:
  "migrate (memdb_driver ''sqlcc'' [''create table b'']) True True ''sqlcc'' three_migrations
     (world_at 0 False) =
     (Some (ExecError ''003_b.sql'' ''syntax error''),
      \<lparr>db = \<lparr>row = Some (0, False), applied = [], snapshot = None\<rparr>,
       calls = [Call_BeginTx None,
                Call_QueryRow ''select version, dirty from sqlcc limit 1'' (Inr (0, False)),
                Call_Exec ''update sqlcc set version = 0, dirty = true'' None,
                Call_Exec ''create table a'' None,
                Call_Exec ''update sqlcc set version = 1, dirty = false'' None,
                Call_Exec ''update sqlcc set version = 1, dirty = true'' None,
                Call_Exec ''create table b'' (Some ''syntax error''),
                Call_Rollback None],
       stdout = [''001_a.sql'', ''003_b.sql'']\<rparr>) \<and>
   db (snd (migrate (memdb_driver ''sqlcc'' [''create table b'']) True True ''sqlcc''
     three_migrations (world_at 0 False))) = db (world_at 0 False)"
proof -
  let ?q = "memdb_driver ''sqlcc'' [''create table b'']"
  let ?body = "[Call_QueryRow ''select version, dirty from sqlcc limit 1'' (Inr (0, False)),
                Call_Exec ''update sqlcc set version = 0, dirty = true'' None,
                Call_Exec ''create table a'' None,
                Call_Exec ''update sqlcc set version = 1, dirty = false'' None,
                Call_Exec ''update sqlcc set version = 1, dirty = true'' None,
                Call_Exec ''create table b'' (Some ''syntax error'')]"
  let ?W = "\<lparr>db = \<lparr>row = Some (0, False), applied = [], snapshot = None\<rparr>,
       calls = Call_BeginTx None # ?body @ [Call_Rollback None],
       stdout = [''001_a.sql'', ''003_b.sql'']\<rparr>"
  let ?d1 = "\<lparr>row = Some (0, False), applied = [], snapshot = Some (Some (0, False), [])\<rparr>"
  let ?w2 = "\<lparr>db = \<lparr>row = Some (1, True),
             applied = [''create table a'', ''part of create table b''],
             snapshot = Some (Some (0, False), [])\<rparr>,
       calls = Call_BeginTx None # ?body,
       stdout = [''001_a.sql'', ''003_b.sql'']\<rparr>"
  have run: "migrate ?q True True ''sqlcc'' three_migrations (world_at 0 False) =
     (Some (ExecError ''003_b.sql'' ''syntax error''), ?W)"
    by code_simp
  have b: "begin_tx ?q (db (world_at 0 False)) = Inr ?d1"
    by code_simp
  have f: "migrate_func True ''sqlcc'' three_migrations ?q
      (world_at 0 False\<lparr>db := ?d1, calls := calls (world_at 0 False) @ [Call_BeginTx None]\<rparr>) =
      (Some (ExecError ''003_b.sql'' ''syntax error''), ?w2)"
    by code_simp
  have r: "fst (rollback_tx ?q (db ?w2)) = None"
    by code_simp
  from migrate_in_transaction [OF memdb_rollback_restores sorted_three run,
      THEN conjunct2, rule_format, OF b]
  obtain body fr w2 closing where
    1: "migrate_func True ''sqlcc'' three_migrations ?q
        (world_at 0 False\<lparr>db := ?d1, calls := calls (world_at 0 False) @ [Call_BeginTx None]\<rparr>) =
        (fr, w2)"
    and 2: "fr \<noteq> None \<longrightarrow>
         closing = Call_Rollback (fst (rollback_tx ?q (db w2))) \<and>
         Some (ExecError ''003_b.sql'' ''syntax error'') \<noteq> None \<and>
         (fst (rollback_tx ?q (db w2)) = None \<longrightarrow>
            Some (ExecError ''003_b.sql'' ''syntax error'') = fr \<and>
            db ?W = db (world_at 0 False)) \<and>
         (\<forall>e. fst (rollback_tx ?q (db w2)) = Some e \<longrightarrow>
            Some (ExecError ''003_b.sql'' ''syntax error'') = Some (RollbackTxError e))"
    by (elim exE conjE) (rule that; assumption)
  from 1 f have "fr = Some (ExecError ''003_b.sql'' ''syntax error'')" "w2 = ?w2" by simp_all
  with 2 r have "db ?W = db (world_at 0 False)" by simp
  with run show ?thesis by simp
qed

text \<open>
  C5. In dry-run mode (no force option), from a clean persisted state of version \<open>V\<close> and
  on a migration set, the function literal reads the state, prints the name of each
  pending migration in order, and returns without error: no call of \<^verbatim>\<open>ExecContext\<close>
  (no script is executed, the state is not written), the database as it was. Without a
  transaction that is all of \<^verbatim>\<open>migrate\<close>; in a transaction that opens, the same lies
  between \<^verbatim>\<open>BeginTx\<close> and \<^verbatim>\<open>Commit\<close>. In both modes no call of \<^verbatim>\<open>ExecContext\<close> is made,
  and a run that succeeds leaves the persisted state clean at \<open>V\<close>.
\<close>

theorem migrate_dry_run:
  assumes "sorted_wrt (<) (map migration.version ms)"
    and "persisted q tbl (db w) = Inr (V, False)"
    and "begin_keeps_state q tbl"
    and "commit_keeps_state q tbl"
    and "migrate q inTx False tbl ms w = (res, w')"
  shows "migrate_func False tbl ms q w =
           (None, w\<lparr>calls := calls w @ [Call_QueryRow (stateSQL tbl) (Inr (V, False))],
                     stdout := stdout w @ map name (pending V ms)\<rparr>) \<and>
         (\<not> inTx \<longrightarrow> res = None \<and>
            w' = w\<lparr>calls := calls w @ [Call_QueryRow (stateSQL tbl) (Inr (V, False))],
                   stdout := stdout w @ map name (pending V ms)\<rparr>) \<and>
         (inTx \<longrightarrow> (\<forall>d1. begin_tx q (db w) = Inr d1 \<longrightarrow>
            stdout w' = stdout w @ map name (pending V ms) \<and>
            calls w' = calls w @
              [Call_BeginTx None, Call_QueryRow (stateSQL tbl) (Inr (V, False)),
               Call_Commit (fst (commit_tx q d1))])) \<and>
         list_all (\<lambda>c. \<not> is_exec c) (drop (length (calls w)) (calls w')) \<and>
         (res = None \<longrightarrow> persisted q tbl (db w') = Inr (V, False))"
proof -
  let ?f = "migrate_func False tbl ms q"
  let ?r = "Call_QueryRow (stateSQL tbl) (Inr (V, False))"
  have f: "?f u = (None, u\<lparr>calls := calls u @ [?r],
                     stdout := stdout u @ map name (pending V ms)\<rparr>)"
    if "persisted q tbl (db u) = Inr (V, False)" for u
    using migrate_func_clean [OF that assms(1)] by (simp add: run_rest_dry)
  show ?thesis
  proof (cases inTx)
    case False
    then have "?f w = (res, w')" using assms(5) by (simp add: migrate_def withTx_False)
    then show ?thesis using f [OF assms(2)] False assms(2) by auto
  next
    case True
    then have run: "withTx q True ?f w = (res, w')" using assms(5) by (simp add: migrate_def)
    show ?thesis
    proof (cases "begin_tx q (db w)")
      case (Inl e)
      then have "res = Some (BeginTxError e)"
        "w' = w\<lparr>calls := calls w @ [Call_BeginTx (Some e)]\<rparr>"
        using run unfolding withTx_True by auto
      then show ?thesis using f [OF assms(2)] True Inl by simp
    next
      case (Inr d1)
      let ?w1 = "w\<lparr>db := d1, calls := calls w @ [Call_BeginTx None]\<rparr>"
      have p1: "persisted q tbl (db ?w1) = Inr (V, False)"
        using assms(2,3) Inr unfolding begin_keeps_state_def by simp
      obtain cr d3 where c: "commit_tx q d1 = (cr, d3)" by (cases "commit_tx q d1")
      have w': "w' = w\<lparr>db := d3, calls := calls w @
            [Call_BeginTx None, ?r, Call_Commit cr],
            stdout := stdout w @ map name (pending V ms)\<rparr>"
        and res: "res = (case cr of None \<Rightarrow> None | Some x \<Rightarrow> Some (CommitTxError x))"
        using run Inr c by (auto simp: withTx_True f [OF p1] split: option.splits)
      have "cr = None \<Longrightarrow> persisted q tbl d3 = Inr (V, False)"
        using assms(4) c p1 unfolding commit_keeps_state_def by simp
      then have k: "res = None \<longrightarrow> persisted q tbl (db w') = Inr (V, False)"
        using res w' by (auto split: option.splits)
      show ?thesis using f [OF assms(2)] True w' Inr k c by simp
    qed
  qed
qed

theorem migrate_dry_run_witness:
  "migrate (memdb_driver ''sqlcc'' []) True False ''sqlcc'' three_migrations (world_at 1 False) =
     (None,
      \<lparr>db = \<lparr>row = Some (1, False), applied = [], snapshot = None\<rparr>,
       calls = [Call_BeginTx None,
                Call_QueryRow ''select version, dirty from sqlcc limit 1'' (Inr (1, False)),
                Call_Commit None],
       stdout = [''003_b.sql'', ''7_c.sql'']\<rparr>) \<and>
   list_all (\<lambda>c. \<not> is_exec c)
     (drop (length (calls (world_at 1 False)))
        [Call_BeginTx None,
         Call_QueryRow ''select version, dirty from sqlcc limit 1'' (Inr (1, False)),
         Call_Commit None]) \<and>
   persisted (memdb_driver ''sqlcc'' []) ''sqlcc''
     \<lparr>row = Some (1, False), applied = [], snapshot = None\<rparr> = Inr (1, False) \<and>
   map name (pending 1 three_migrations) = [''003_b.sql'', ''7_c.sql'']"
proof -
  have run: "migrate (memdb_driver ''sqlcc'' []) True False ''sqlcc'' three_migrations
      (world_at 1 False) =
     (None,
      \<lparr>db = \<lparr>row = Some (1, False), applied = [], snapshot = None\<rparr>,
       calls = [Call_BeginTx None,
                Call_QueryRow ''select version, dirty from sqlcc limit 1'' (Inr (1, False)),
                Call_Commit None],
       stdout = [''003_b.sql'', ''7_c.sql'']\<rparr>)"
    by code_simp
  have clean: "persisted (memdb_driver ''sqlcc'' []) ''sqlcc'' (db (world_at 1 False)) =
      Inr (1, False)"
    by code_simp
  have names: "map name (pending 1 three_migrations) = [''003_b.sql'', ''7_c.sql'']"
    by code_simp
  from migrate_dry_run [OF sorted_three clean memdb_begin_keeps_state memdb_commit_keeps_state run]
  have "list_all (\<lambda>c. \<not> is_exec c)
     (drop (length (calls (world_at 1 False)))
        [Call_BeginTx None,
         Call_QueryRow ''select version, dirty from sqlcc limit 1'' (Inr (1, False)),
         Call_Commit None]) \<and>
   persisted (memdb_driver ''sqlcc'' []) ''sqlcc''
     \<lparr>row = Some (1, False), applied = [], snapshot = None\<rparr> = Inr (1, False)"
    by simp
  with run names show ?thesis by (intro conjI) simp_all
qed

text \<open>
  C6, as stated: \<^verbatim>\<open>migrate\<close> returns the count of the migrations applied. It returns an
  error or nil, and nothing else. Two runs in force mode, one that applies two migrations
  and one that applies none, return the same value.
\<close>

theorem migrate_returns_no_count:
  "fst (migrate (memdb_driver ''sqlcc'' []) False True ''sqlcc'' three_migrations
          (world_at 1 False)) = None \<and>
   applied (db (snd (migrate (memdb_driver ''sqlcc'' []) False True ''sqlcc'' three_migrations
          (world_at 1 False)))) = [''create table b'', ''create table c''] \<and>
   fst (migrate (memdb_driver ''sqlcc'' []) False True ''sqlcc'' three_migrations
          (world_at 7 False)) = None \<and>
   applied (db (snd (migrate (memdb_driver ''sqlcc'' []) False True ''sqlcc'' three_migrations
          (world_at 7 False)))) = []"
  by code_simp

text \<open>
  C6, amended. \<^verbatim>\<open>migrate\<close> returns nil or an error, and no count. The migrations
  actually applied during a call, with or without a transaction, are those whose script
  was executed without error. From a clean state of version \<open>V\<close> they are the first \<open>c\<close>
  of the \<open>n\<close> pending migrations, in order, with \<open>c\<close> between 0 and \<open>n\<close>: \<open>c\<close> is 0 in
  dry-run mode, and in force mode it depends on where a failure occurred and is \<open>n\<close> when
  \<^verbatim>\<open>migrate\<close> returns nil. From a state that is dirty or cannot be read, no migration is
  applied and an error is returned. (The scripts are told from the writes of the state
  by the statement text, so no script is to begin like a write of the state.)
\<close>

theorem migrate_applied_count:
  assumes "sorted_wrt (<) (map migration.version ms)"
    and "list_all (\<lambda>m. \<not> is_state_write tbl (query m)) ms"
    and "begin_keeps_state q tbl"
    and "migrate q inTx force tbl ms w = (res, w')"
  shows "(\<forall>V. persisted q tbl (db w) = Inr (V, False) \<longrightarrow>
            (\<exists>c. c \<le> length (pending V ms) \<and>
               scripts_done tbl (drop (length (calls w)) (calls w')) =
                 map query (take c (pending V ms)) \<and>
               (\<not> force \<longrightarrow> c = 0) \<and>
               (force \<and> res = None \<longrightarrow> c = length (pending V ms)))) \<and>
         ((\<forall>V. persisted q tbl (db w) \<noteq> Inr (V, False)) \<longrightarrow>
            scripts_done tbl (drop (length (calls w)) (calls w')) = [] \<and> res \<noteq> None)"
proof (intro conjI allI impI)
  fix V
  assume clean: "persisted q tbl (db w) = Inr (V, False)"
  let ?f = "migrate_func force tbl ms q"
  let ?n = "length (pending V ms)"
  let ?goal = "\<exists>c. c \<le> ?n \<and>
      scripts_done tbl (drop (length (calls w)) (calls w')) =
        map query (take c (pending V ms)) \<and>
      (\<not> force \<longrightarrow> c = 0) \<and> (force \<and> res = None \<longrightarrow> c = ?n)"
  have fin: ?goal
    if "c \<le> ?n" "calls w' = calls w @ pre @ cs @ post"
      "scripts_done tbl pre = []" "scripts_done tbl post = []"
      "scripts_done tbl cs = map query (take c (pending V ms))"
      "\<not> force \<longrightarrow> c = 0" "force \<and> res = None \<longrightarrow> c = ?n" for c pre cs post
  proof -
    have "drop (length (calls w)) (calls w') = pre @ cs @ post" using that(2) by simp
    then have "scripts_done tbl (drop (length (calls w)) (calls w')) =
        map query (take c (pending V ms))"
      using that(3,4,5) by (simp add: scripts_done_append)
    then show ?thesis
      by (intro exI [of _ c] conjI that(1) that(6) that(7))
  qed
  show ?goal
  proof (cases inTx)
    case False
    then have f: "?f w = (res, w')" using assms(4) by (simp add: migrate_def withTx_False)
    from migrate_func_scripts_done [OF assms(1,2) clean f] obtain c where
      "\<exists>cs. c \<le> ?n \<and> calls w' = calls w @ cs \<and>
         scripts_done tbl cs = map query (take c (pending V ms)) \<and>
         (\<not> force \<longrightarrow> c = 0) \<and> (force \<and> res = None \<longrightarrow> c = ?n)" ..
    then obtain cs where x: "c \<le> ?n \<and> calls w' = calls w @ cs \<and>
         scripts_done tbl cs = map query (take c (pending V ms)) \<and>
         (\<not> force \<longrightarrow> c = 0) \<and> (force \<and> res = None \<longrightarrow> c = ?n)" ..
    have cw: "calls w' = calls w @ [] @ cs @ []" using x by simp
    have e: "scripts_done tbl [] = []" by simp
    have 1: "c \<le> ?n"
      and 2: "scripts_done tbl cs = map query (take c (pending V ms))"
      and 3: "\<not> force \<longrightarrow> c = 0"
      and 4: "force \<and> res = None \<longrightarrow> c = ?n"
      using x by blast+
    show ?thesis by (rule fin [OF 1 cw e e 2 3 4])
  next
    case True
    then have run: "withTx q True ?f w = (res, w')" using assms(4) by (simp add: migrate_def)
    show ?thesis
    proof (cases "begin_tx q (db w)")
      case (Inl e)
      then have "res = Some (BeginTxError e)"
        "calls w' = calls w @ [Call_BeginTx (Some e)]"
        using run unfolding withTx_True by auto
      then show ?thesis
        by (intro fin [of 0 "[Call_BeginTx (Some e)]" "[]" "[]"]) simp_all
    next
      case (Inr d1)
      let ?w1 = "w\<lparr>db := d1, calls := calls w @ [Call_BeginTx None]\<rparr>"
      obtain fr w2 where f: "?f ?w1 = (fr, w2)" by (cases "?f ?w1")
      have p1: "persisted q tbl (db ?w1) = Inr (V, False)"
        using assms(3) clean Inr unfolding begin_keeps_state_def by simp
      note cl = withTx_closing [OF run Inr f]
      let ?closing = "if fr = None then Call_Commit (fst (commit_tx q (db w2)))
            else Call_Rollback (fst (rollback_tx q (db w2)))"
      have rn: "res = None \<longrightarrow> fr = None"
        using cl by (cases fr) (auto split: option.splits)
      from migrate_func_scripts_done [OF assms(1,2) p1 f] obtain c where
        "\<exists>cs. c \<le> ?n \<and> calls w2 = calls ?w1 @ cs \<and>
           scripts_done tbl cs = map query (take c (pending V ms)) \<and>
           (\<not> force \<longrightarrow> c = 0) \<and> (force \<and> fr = None \<longrightarrow> c = ?n)" ..
      then obtain cs where x: "c \<le> ?n \<and> calls w2 = calls ?w1 @ cs \<and>
           scripts_done tbl cs = map query (take c (pending V ms)) \<and>
           (\<not> force \<longrightarrow> c = 0) \<and> (force \<and> fr = None \<longrightarrow> c = ?n)" ..
      have cw: "calls w' = calls w @ [Call_BeginTx None] @ cs @ [?closing]"
        using cl x by simp
      have first: "scripts_done tbl [Call_BeginTx None] = []"
        and last: "scripts_done tbl [?closing] = []"
        by simp_all
      have 1: "c \<le> ?n"
        and 2: "scripts_done tbl cs = map query (take c (pending V ms))"
        and 3: "\<not> force \<longrightarrow> c = 0"
        using x by blast+
      have 4: "force \<and> res = None \<longrightarrow> c = ?n" using x rn by blast
      show ?thesis by (rule fin [OF 1 cw first last 2 3 4])
    qed
  qed
next
  assume nc: "\<forall>V. persisted q tbl (db w) \<noteq> Inr (V, False)"
  let ?f = "migrate_func force tbl ms q"
  have "scripts_done tbl (drop (length (calls w)) (calls w')) = [] \<and> res \<noteq> None"
  proof (cases inTx)
    case False
    then have f: "?f w = (res, w')" using assms(4) by (simp add: migrate_def withTx_False)
    from migrate_func_not_clean [OF nc f] show ?thesis by simp
  next
    case True
    then have run: "withTx q True ?f w = (res, w')" using assms(4) by (simp add: migrate_def)
    show ?thesis
    proof (cases "begin_tx q (db w)")
      case (Inl e)
      then have "res = Some (BeginTxError e)"
        "calls w' = calls w @ [Call_BeginTx (Some e)]"
        using run unfolding withTx_True by auto
      then show ?thesis by simp
    next
      case (Inr d1)
      let ?w1 = "w\<lparr>db := d1, calls := calls w @ [Call_BeginTx None]\<rparr>"
      obtain fr w2 where f: "?f ?w1 = (fr, w2)" by (cases "?f ?w1")
      have "persisted q tbl (db ?w1) = persisted q tbl (db w)"
        using assms(3) Inr unfolding begin_keeps_state_def by simp
      then have nc1: "\<forall>V. persisted q tbl (db ?w1) \<noteq> Inr (V, False)" using nc by simp
      note a = migrate_func_not_clean [OF nc1 f]
      note cl = withTx_closing [OF run Inr f]
      have fr: "fr \<noteq> None" using a by simp
      have "calls w' = calls w @
          [Call_BeginTx None, Call_QueryRow (stateSQL tbl) (persisted q tbl (db ?w1)),
           Call_Rollback (fst (rollback_tx q (db w2)))]"
        using a cl fr by simp
      then have 1: "scripts_done tbl (drop (length (calls w)) (calls w')) = []" by simp
      have 2: "res \<noteq> None" using cl fr by (auto split: option.splits)
      from 1 2 show ?thesis ..
    qed
  qed
  then show "scripts_done tbl (drop (length (calls w)) (calls w')) = []" "res \<noteq> None"
    by simp_all
qed

theorem migrate_applied_count_witness:
  "migrate (memdb_driver ''sqlcc'' [''create table b'']) False True ''sqlcc'' three_migrations
     (world_at 0 False) =
     (Some (ExecError ''003_b.sql'' ''syntax error''),
      \<lparr>db = \<lparr>row = Some (1, True),
             applied = [''create table a'', ''part of create table b''], snapshot = None\<rparr>,
       calls = [Call_QueryRow ''select version, dirty from sqlcc limit 1'' (Inr (0, False)),
                Call_Exec ''update sqlcc set version = 0, dirty = true'' None,
                Call_Exec ''create table a'' None,
                Call_Exec ''update sqlcc set version = 1, dirty = false'' None,
                Call_Exec ''update sqlcc set version = 1, dirty = true'' None,
                Call_Exec ''create table b'' (Some ''syntax error'')],
       stdout = [''001_a.sql'', ''003_b.sql'']\<rparr>) \<and>
   length (pending 0 three_migrations) = 3 \<and>
   (\<exists>c. c \<le> 3 \<and> [''create table a''] = map query (take c (pending 0 three_migrations)))"
proof -
  let ?q = "memdb_driver ''sqlcc'' [''create table b'']"
  let ?calls = "[Call_QueryRow ''select version, dirty from sqlcc limit 1'' (Inr (0, False)),
                Call_Exec ''update sqlcc set version = 0, dirty = true'' None,
                Call_Exec ''create table a'' None,
                Call_Exec ''update sqlcc set version = 1, dirty = false'' None,
                Call_Exec ''update sqlcc set version = 1, dirty = true'' None,
                Call_Exec ''create table b'' (Some ''syntax error'')]"
  let ?W = "\<lparr>db = \<lparr>row = Some (1, True),
             applied = [''create table a'', ''part of create table b''], snapshot = None\<rparr>,
       calls = ?calls, stdout = [''001_a.sql'', ''003_b.sql'']\<rparr>"
  have run: "migrate ?q False True ''sqlcc'' three_migrations (world_at 0 False) =
     (Some (ExecError ''003_b.sql'' ''syntax error''), ?W)"
    by code_simp
  have clean: "persisted ?q ''sqlcc'' (db (world_at 0 False)) = Inr (0, False)"
    by code_simp
  have n: "length (pending 0 three_migrations) = 3"
    by code_simp
  have sd: "scripts_done ''sqlcc'' (drop (length (calls (world_at 0 False))) (calls ?W)) =
      [''create table a'']"
    by code_simp
  from migrate_applied_count [OF sorted_three three_scripts_no_state_write
      memdb_begin_keeps_state run, THEN conjunct1, rule_format, OF clean]
  obtain c where "c \<le> length (pending 0 three_migrations)"
    "scripts_done ''sqlcc'' (drop (length (calls (world_at 0 False))) (calls ?W)) =
       map query (take c (pending 0 three_migrations))"
    by (elim exE conjE) (rule that; assumption)
  then have "c \<le> 3 \<and> [''create table a''] = map query (take c (pending 0 three_migrations))"
    unfolding n sd by simp
  then have "\<exists>c. c \<le> 3 \<and> [''create table a''] = map query (take c (pending 0 three_migrations))" ..
  with run n show ?thesis by (intro conjI)
qed

text \<open>A run in force mode that applies every pending migration and still returns an
  error: on a database that refuses the write of the clean state after the last script,
  the one pending migration is applied and the error of the write is returned.\<close>

lemma migrate_applies_all_and_fails:
  "fst (migrate
     ((memdb_driver ''sqlcc'' [])\<lparr>exec_stmt := \<lambda>stmt d.
        if stmt = ''update sqlcc set version = 7, dirty = false'' then (Some ''disk full'', d)
        else memdb_exec ''sqlcc'' [] stmt d\<rparr>)
     False True ''sqlcc'' three_migrations (world_at 3 False)) =
     Some (WriteStateError ''disk full'') \<and>
   scripts_done ''sqlcc'' (calls (snd (migrate
     ((memdb_driver ''sqlcc'' [])\<lparr>exec_stmt := \<lambda>stmt d.
        if stmt = ''update sqlcc set version = 7, dirty = false'' then (Some ''disk full'', d)
        else memdb_exec ''sqlcc'' [] stmt d\<rparr>)
     False True ''sqlcc'' three_migrations (world_at 3 False)))) =
     [''create table c''] \<and>
   map query (pending 3 three_migrations) = [''create table c'']"
  by code_simp


end
